theory Spec2Isabelle
  imports Main "HOL-Library.Word"
begin

section \<open>The recency queue\<close>

text \<open>
  Both caches keep a \<open>container/list\<close> queue of entry pointers and a Go map from keys to
  the same entries. An entry is created only by \<open>Add\<close>, under a key that is absent from
  the map, and its \<open>key\<close> field never changes; so the model names an entry by its key:
  the queue is a list of keys (front of the queue first), the map sends a key to the
  mutable fields of its entry, and a \<open>*list.Element\<close> handle is \<open>Some key\<close>, or \<open>None\<close>
  for \<open>nil\<close>. The list operations below are the ones of Go's standard library, a
  \<open>None\<close> result being the nil-pointer panic of the library on a nil element.
\<close>

type_synonym queue = "string list"
type_synonym element = "string option"

definition PushFront :: "string \<Rightarrow> queue \<Rightarrow> queue" where
  "PushFront k l = k # l"

definition MoveToFront :: "element \<Rightarrow> queue \<Rightarrow> queue option" where
  "MoveToFront p l =
     (case p of None \<Rightarrow> None
      | Some h \<Rightarrow> Some (if h \<in> set l then h # remove1 h l else l))"

definition Remove :: "element \<Rightarrow> queue \<Rightarrow> queue option" where
  "Remove p l = (case p of None \<Rightarrow> None | Some h \<Rightarrow> Some (remove1 h l))"

definition Back :: "queue \<Rightarrow> element" where
  "Back l = (if l = [] then None else Some (last l))"

section \<open>The cache with pinned members (lru.go)\<close>

text \<open>
  \<open>lru.go\<close> holds the cache twice: a copy whose methods take the mutex \<open>lock\<close>, and
  a copy without the mutex. The statements on the queue and the index are the same in
  both. The definitions of this section are the copy without the mutex, one call at a
  time; the mutex of the other copy is modelled at the end of the definitions, with
  the methods \<open>Len\<close>, \<open>Unpin\<close> and \<open>evict\<close> of that copy.
\<close>

record 'v cacheEntry =
  data :: "'v option"
  pinned :: bool
  position :: element

text \<open>
  \<open>interface{}\<close> values are \<open>'v option\<close>, \<open>None\<close> being \<open>nil\<close>. The eviction callback
  is a function of the key that acts on the world outside the cache, of type \<open>'w\<close>;
  \<open>None\<close> is the nil callback.
\<close>

record ('v, 'w) Cache =
  size_c :: int
  cache :: "string \<rightharpoonup> 'v cacheEntry"
  q :: queue
  evictedCallback :: "(string \<Rightarrow> 'w \<Rightarrow> 'w) option"

definition NewCache :: "int \<Rightarrow> (string \<Rightarrow> 'w \<Rightarrow> 'w) option \<Rightarrow> ('v, 'w) Cache" where
  "NewCache n cb = \<lparr>size_c = n, cache = Map.empty, q = [], evictedCallback = cb\<rparr>"

definition Len :: "('v, 'w) Cache \<Rightarrow> int" where
  "Len lru = int (card (dom (cache lru)))"

definition Size :: "('v, 'w) Cache \<Rightarrow> int" where
  "Size lru = size_c lru"

definition Get :: "string \<Rightarrow> ('v, 'w) Cache \<Rightarrow> (('v option \<times> bool) \<times> ('v, 'w) Cache) option" where
  "Get key lru =
     (case cache lru key of
        Some e \<Rightarrow>
          (if \<not> pinned e then
             (case MoveToFront (position e) (q lru) of
                None \<Rightarrow> None
              | Some l \<Rightarrow> Some ((data e, True), lru\<lparr>q := l\<rparr>))
           else Some ((data e, True), lru))
      | None \<Rightarrow> Some ((None, False), lru))"

definition HasKey :: "string \<Rightarrow> ('v, 'w) Cache \<Rightarrow> bool" where
  "HasKey key lru = (case cache lru key of Some e \<Rightarrow> True | None \<Rightarrow> False)"

text \<open>
  \<open>evict\<close> is a single conditional: one entry at most leaves the queue. The entry
  removed is the one at the back, so the queue loses its last element.
\<close>

definition evict :: "('v, 'w) Cache \<Rightarrow> 'w \<Rightarrow> (('v, 'w) Cache \<times> 'w) option" where
  "evict lru w =
     (if int (length (q lru)) > size_c lru then
        (case Back (q lru) of
           None \<Rightarrow> None
         | Some k \<Rightarrow>
             Some (lru\<lparr>q := butlast (q lru), cache := (cache lru)(k := None)\<rparr>,
                   (case evictedCallback lru of None \<Rightarrow> w | Some cb \<Rightarrow> cb k w)))
      else Some (lru, w))"

definition Add :: "string \<Rightarrow> 'v option \<Rightarrow> ('v, 'w) Cache \<Rightarrow> 'w \<Rightarrow> (('v, 'w) Cache \<times> 'w) option" where
  "Add key d lru w =
     (case cache lru key of
        Some e \<Rightarrow>
          (if \<not> pinned e then
             (case MoveToFront (position e) (q lru) of
                None \<Rightarrow> None
              | Some l \<Rightarrow> Some (lru\<lparr>q := l, cache := (cache lru)(key \<mapsto> e\<lparr>data := d\<rparr>)\<rparr>, w))
           else Some (lru\<lparr>cache := (cache lru)(key \<mapsto> e\<lparr>data := d\<rparr>)\<rparr>, w))
      | None \<Rightarrow>
          evict (lru\<lparr>q := PushFront key (q lru),
                      cache := (cache lru)(key \<mapsto> \<lparr>data = d, pinned = False, position = Some key\<rparr>)\<rparr>) w)"

definition Pin :: "string \<Rightarrow> ('v, 'w) Cache \<Rightarrow> ('v, 'w) Cache option" where
  "Pin key lru =
     (case cache lru key of
        Some e \<Rightarrow>
          (if \<not> pinned e then
             (case Remove (position e) (q lru) of
                None \<Rightarrow> None
              | Some l \<Rightarrow>
                  Some (lru\<lparr>q := l, cache := (cache lru)(key \<mapsto> e\<lparr>pinned := True, position := None\<rparr>)\<rparr>))
           else Some lru)
      | None \<Rightarrow> Some lru)"

definition Unpin :: "string \<Rightarrow> ('v, 'w) Cache \<Rightarrow> 'w \<Rightarrow> (('v, 'w) Cache \<times> 'w) option" where
  "Unpin key lru w =
     (case cache lru key of
        Some e \<Rightarrow>
          (if pinned e then
             evict (lru\<lparr>q := PushFront key (q lru),
                         cache := (cache lru)(key \<mapsto> e\<lparr>pinned := False, position := Some key\<rparr>)\<rparr>) w
           else Some (lru, w))
      | None \<Rightarrow> Some (lru, w))"

text \<open>The Go result \<open>(bool, error)\<close>: the error is \<open>None\<close> for \<open>nil\<close>, or its message.\<close>

definition IsPinned :: "string \<Rightarrow> ('v, 'w) Cache \<Rightarrow> bool \<times> string option" where
  "IsPinned key lru =
     (case cache lru key of
        Some e \<Rightarrow> (pinned e, None)
      | None \<Rightarrow> (False, Some (key @ '': not in cache'')))"

subsection \<open>Sequences of public calls\<close>

text \<open>
  A public call with its arguments, and the state after it. The calls that only read
  the cache, and \<open>PrintStats\<close>, which only prints, leave the state and the world.
\<close>

datatype 'v call =
    CGet string | CHasKey string | CAdd string "'v option" | CPin string | CUnpin string
  | CIsPinned string | CLen | CSize | CPrintStats

fun exec :: "'v call \<Rightarrow> ('v, 'w) Cache \<times> 'w \<Rightarrow> (('v, 'w) Cache \<times> 'w) option" where
  "exec (CGet k) (lru, w) = (case Get k lru of None \<Rightarrow> None | Some (r, lru') \<Rightarrow> Some (lru', w))"
| "exec (CHasKey k) (lru, w) = Some (lru, w)"
| "exec (CAdd k d) (lru, w) = Add k d lru w"
| "exec (CPin k) (lru, w) = (case Pin k lru of None \<Rightarrow> None | Some lru' \<Rightarrow> Some (lru', w))"
| "exec (CUnpin k) (lru, w) = Unpin k lru w"
| "exec (CIsPinned k) (lru, w) = Some (lru, w)"
| "exec CLen (lru, w) = Some (lru, w)"
| "exec CSize (lru, w) = Some (lru, w)"
| "exec CPrintStats (lru, w) = Some (lru, w)"

fun run :: "'v call list \<Rightarrow> ('v, 'w) Cache \<times> 'w \<Rightarrow> (('v, 'w) Cache \<times> 'w) option" where
  "run [] s = Some s"
| "run (c # cs) s = (case exec c s of None \<Rightarrow> None | Some s' \<Rightarrow> run cs s')"

text \<open>The keys of the pinned entries of the index.\<close>

definition pinned_keys :: "('v, 'w) Cache \<Rightarrow> string set" where
  "pinned_keys lru = {k. \<exists>e. cache lru k = Some e \<and> pinned e}"

definition unpinned_keys :: "('v, 'w) Cache \<Rightarrow> string set" where
  "unpinned_keys lru = {k. \<exists>e. cache lru k = Some e \<and> \<not> pinned e}"

text \<open>
  The representation invariant: the queue has no duplicates and holds the unpinned keys
  of the index; an unpinned entry holds its handle and a pinned one holds nil.
\<close>

definition cache_inv :: "('v, 'w) Cache \<Rightarrow> bool" where
  "cache_inv lru \<longleftrightarrow>
     distinct (q lru) \<and> finite (dom (cache lru)) \<and>
     set (q lru) = unpinned_keys lru \<and>
     (\<forall>k e. cache lru k = Some e \<longrightarrow> position e = (if pinned e then None else Some k))"

text \<open>
  The eviction of section 4.1 of the specification, in the specification's words: while
  the queue is longer than the size, remove the back entry, delete it from the index and
  call the callback with its key. It is compared with \<open>evict\<close> below.
\<close>

function evict_spec_loop :: "('v, 'w) Cache \<Rightarrow> 'w \<Rightarrow> (('v, 'w) Cache \<times> 'w) option" where
  "evict_spec_loop lru w =
     (if int (length (q lru)) > size_c lru then
        (case Back (q lru) of
           None \<Rightarrow> None
         | Some k \<Rightarrow>
             evict_spec_loop (lru\<lparr>q := butlast (q lru), cache := (cache lru)(k := None)\<rparr>)
               (case evictedCallback lru of None \<Rightarrow> w | Some cb \<Rightarrow> cb k w))
      else Some (lru, w))"
  by pat_completeness auto
termination
  by (relation "measure (\<lambda>(lru, w). length (q lru))") (auto simp: Back_def split: if_splits)

declare evict_spec_loop.simps [simp del]

text \<open>
  The callback applied to the keys of a list, one call for each key, in the order of
  the list.
\<close>

definition calls :: "(string \<Rightarrow> 'w \<Rightarrow> 'w) option \<Rightarrow> string list \<Rightarrow> 'w \<Rightarrow> 'w" where
  "calls cb ks w = (case cb of None \<Rightarrow> w | Some f \<Rightarrow> foldl (\<lambda>x k. f k x) w ks)"

section \<open>The cache of weighted segments (lru_segment.go)\<close>

type_synonym int64 = "64 word"

record 'v cacheSegmentEntry =
  size_s :: int64
  data_s :: "'v option"
  position_s :: element

record ('v, 'w) SegmentCache =
  capacity :: int64
  usedCapacity :: int64
  cache_s :: "string \<rightharpoonup> 'v cacheSegmentEntry"
  q_s :: queue
  evictedCallback_s :: "(string \<Rightarrow> 'w \<Rightarrow> 'w) option"

definition NewSegmentCache :: "int64 \<Rightarrow> (string \<Rightarrow> 'w \<Rightarrow> 'w) option \<Rightarrow> ('v, 'w) SegmentCache" where
  "NewSegmentCache c cb =
     \<lparr>capacity = c, usedCapacity = 0, cache_s = Map.empty, q_s = [], evictedCallback_s = cb\<rparr>"

definition Len_s :: "('v, 'w) SegmentCache \<Rightarrow> int" where
  "Len_s lru = int (card (dom (cache_s lru)))"

definition Capacity :: "('v, 'w) SegmentCache \<Rightarrow> int64" where
  "Capacity lru = capacity lru"

definition UsedCapacity :: "('v, 'w) SegmentCache \<Rightarrow> int64" where
  "UsedCapacity lru = usedCapacity lru"

definition Get_s :: "string \<Rightarrow> ('v, 'w) SegmentCache \<Rightarrow> (('v option \<times> bool) \<times> ('v, 'w) SegmentCache) option" where
  "Get_s key lru =
     (case cache_s lru key of
        Some e \<Rightarrow>
          (case MoveToFront (position_s e) (q_s lru) of
             None \<Rightarrow> None
           | Some l \<Rightarrow> Some ((data_s e, True), lru\<lparr>q_s := l\<rparr>))
      | None \<Rightarrow> Some ((None, False), lru))"

definition HasKey_s :: "string \<Rightarrow> ('v, 'w) SegmentCache \<Rightarrow> bool" where
  "HasKey_s key lru = (case cache_s lru key of Some e \<Rightarrow> True | None \<Rightarrow> False)"

text \<open>
  The loop of \<open>evict\<close>. The comparison and the subtraction are those of Go's \<open>int64\<close>:
  signed, wrapping around. The entry at the back is read through its key; a queue
  element always has its entry, and the model has no result for a key without one.
  \<open>PrintStats\<close>, called at the end, only prints.
\<close>

function evict_s :: "('v, 'w) SegmentCache \<Rightarrow> 'w \<Rightarrow> (('v, 'w) SegmentCache \<times> 'w) option" where
  "evict_s lru w =
     (if capacity lru <s usedCapacity lru then
        (case Back (q_s lru) of
           None \<Rightarrow> None
         | Some k \<Rightarrow>
             (case cache_s lru k of
                None \<Rightarrow> None
              | Some e \<Rightarrow>
                  evict_s (lru\<lparr>q_s := butlast (q_s lru),
                               usedCapacity := usedCapacity lru - size_s e,
                               cache_s := (cache_s lru)(k := None)\<rparr>)
                    (case evictedCallback_s lru of None \<Rightarrow> w | Some cb \<Rightarrow> cb k w)))
      else Some (lru, w))"
  by pat_completeness auto
termination
  by (relation "measure (\<lambda>(lru, w). length (q_s lru))") (auto simp: Back_def split: if_splits)

declare evict_s.simps [simp del]

text \<open>The number of times the body of the loop of \<open>evict\<close> runs.\<close>

function evict_s_iters :: "('v, 'w) SegmentCache \<Rightarrow> nat" where
  "evict_s_iters lru =
     (if capacity lru <s usedCapacity lru then
        (case Back (q_s lru) of
           None \<Rightarrow> 0
         | Some k \<Rightarrow>
             (case cache_s lru k of
                None \<Rightarrow> 0
              | Some e \<Rightarrow>
                  Suc (evict_s_iters (lru\<lparr>q_s := butlast (q_s lru),
                               usedCapacity := usedCapacity lru - size_s e,
                               cache_s := (cache_s lru)(k := None)\<rparr>))))
      else 0)"
  by pat_completeness auto
termination
  by (relation "measure (\<lambda>lru. length (q_s lru))") (auto simp: Back_def split: if_splits)

declare evict_s_iters.simps [simp del]

definition Add_s :: "string \<Rightarrow> 'v option \<Rightarrow> int64 \<Rightarrow> ('v, 'w) SegmentCache \<Rightarrow> 'w \<Rightarrow> (('v, 'w) SegmentCache \<times> 'w) option" where
  "Add_s key d sz lru w =
     (case cache_s lru key of
        Some e \<Rightarrow>
          (case MoveToFront (position_s e) (q_s lru) of
             None \<Rightarrow> None
           | Some l \<Rightarrow> Some (lru\<lparr>q_s := l, cache_s := (cache_s lru)(key \<mapsto> e\<lparr>data_s := d\<rparr>)\<rparr>, w))
      | None \<Rightarrow>
          evict_s (lru\<lparr>q_s := PushFront key (q_s lru),
                        usedCapacity := usedCapacity lru + sz,
                        cache_s := (cache_s lru)(key \<mapsto> \<lparr>size_s = sz, data_s = d, position_s = Some key\<rparr>)\<rparr>) w)"

subsection \<open>Sequences of public calls\<close>

datatype 'v call_s =
    SGet string | SHasKey string | SAdd string "'v option" int64 | SLen | SCapacity | SUsedCapacity
  | SPrintStats

fun exec_s :: "'v call_s \<Rightarrow> ('v, 'w) SegmentCache \<times> 'w \<Rightarrow> (('v, 'w) SegmentCache \<times> 'w) option" where
  "exec_s (SGet k) (lru, w) = (case Get_s k lru of None \<Rightarrow> None | Some (r, lru') \<Rightarrow> Some (lru', w))"
| "exec_s (SHasKey k) (lru, w) = Some (lru, w)"
| "exec_s (SAdd k d sz) (lru, w) = Add_s k d sz lru w"
| "exec_s SLen (lru, w) = Some (lru, w)"
| "exec_s SCapacity (lru, w) = Some (lru, w)"
| "exec_s SUsedCapacity (lru, w) = Some (lru, w)"
| "exec_s SPrintStats (lru, w) = Some (lru, w)"

fun run_s :: "'v call_s list \<Rightarrow> ('v, 'w) SegmentCache \<times> 'w \<Rightarrow> (('v, 'w) SegmentCache \<times> 'w) option" where
  "run_s [] s = Some s"
| "run_s (c # cs) s = (case exec_s c s of None \<Rightarrow> None | Some s' \<Rightarrow> run_s cs s')"

text \<open>The weight of the entry of a key in an index.\<close>

definition weight :: "(string \<rightharpoonup> 'v cacheSegmentEntry) \<Rightarrow> string \<Rightarrow> int64" where
  "weight m k = (case m k of None \<Rightarrow> 0 | Some e \<Rightarrow> size_s e)"

text \<open>
  The representation invariant: the queue has no duplicates and holds the keys of the
  index, every entry holds its handle, and \<open>usedCapacity\<close> is the sum of the weights in
  \<open>int64\<close> arithmetic.
\<close>

definition seg_inv :: "('v, 'w) SegmentCache \<Rightarrow> bool" where
  "seg_inv lru \<longleftrightarrow>
     distinct (q_s lru) \<and> set (q_s lru) = dom (cache_s lru) \<and>
     (\<forall>k e. cache_s lru k = Some e \<longrightarrow> position_s e = Some k) \<and>
     usedCapacity lru = sum_list (map (weight (cache_s lru)) (q_s lru))"

text \<open>
  A call whose weight is not negative and does not overflow \<open>int64\<close> when added to a
  used capacity within the capacity.
\<close>

fun weight_ok :: "int64 \<Rightarrow> 'v call_s \<Rightarrow> bool" where
  "weight_ok c (SAdd k d sz) \<longleftrightarrow> 0 \<le> sint sz \<and> sint c + sint sz < 2 ^ 63"
| "weight_ok c x \<longleftrightarrow> True"

text \<open>
  The sum of the weights of the entries of the index, as an integer: the weights are
  read as signed 64-bit values and added without wrapping around.
\<close>

definition weight_sum :: "('v, 'w) SegmentCache \<Rightarrow> int" where
  "weight_sum lru = (\<Sum>k\<in>dom (cache_s lru). sint (weight (cache_s lru) k))"

text \<open>
  The used capacity is exact when no weight of the queue is negative and the used
  capacity, read as a signed integer, is the sum of the weights without wrapping.
\<close>

definition exact_inv :: "('v, 'w) SegmentCache \<Rightarrow> bool" where
  "exact_inv lru \<longleftrightarrow>
     (\<forall>k \<in> set (q_s lru). 0 \<le> sint (weight (cache_s lru) k)) \<and>
     sint (usedCapacity lru) = sum_list (map (\<lambda>k. sint (weight (cache_s lru) k)) (q_s lru))"

text \<open>
  The state in which \<open>Add\<close> calls the eviction for a key that is not in the index: the
  key is at the front of the queue, its entry is in the index and, in the weighted
  cache, its weight is added to the used capacity.
\<close>

abbreviation pushed :: "string \<Rightarrow> 'v option \<Rightarrow> ('v, 'w) Cache \<Rightarrow> ('v, 'w) Cache" where
  "pushed k d lru \<equiv>
     lru\<lparr>q := PushFront k (q lru),
         cache := (cache lru)(k \<mapsto> \<lparr>data = d, pinned = False, position = Some k\<rparr>)\<rparr>"

abbreviation pushed_s :: "string \<Rightarrow> 'v option \<Rightarrow> int64 \<Rightarrow> ('v, 'w) SegmentCache \<Rightarrow> ('v, 'w) SegmentCache" where
  "pushed_s k d sz lru \<equiv>
     lru\<lparr>q_s := PushFront k (q_s lru), usedCapacity := usedCapacity lru + sz,
         cache_s := (cache_s lru)(k \<mapsto> \<lparr>size_s = sz, data_s = d, position_s = Some k\<rparr>)\<rparr>"

text \<open>The state in which \<open>Unpin\<close> calls the eviction for a pinned entry.\<close>

abbreviation unpinned :: "string \<Rightarrow> 'v cacheEntry \<Rightarrow> ('v, 'w) Cache \<Rightarrow> ('v, 'w) Cache" where
  "unpinned k e lru \<equiv>
     lru\<lparr>q := PushFront k (q lru),
         cache := (cache lru)(k \<mapsto> e\<lparr>pinned := False, position := Some k\<rparr>)\<rparr>"

section \<open>The copy of the cache with the mutex (lru.go, first copy)\<close>

text \<open>
  The struct of the first copy has the fields of the second, here \<open>inner\<close>, and the
  mutex \<open>lock\<close>, true when it is held.
  A call either returns, or panics, or blocks for ever: \<open>Lock\<close> on a mutex that is held
  does not return, and in a sequence of calls nothing releases it. \<open>Unlock\<close> is only
  called by a method that holds the mutex.
\<close>

datatype 'a outcome = Returned 'a | Panicked | Blocked

record ('v, 'w) Cache_mu =
  inner :: "('v, 'w) Cache"
  lock :: bool

definition NewCache_mu :: "int \<Rightarrow> (string \<Rightarrow> 'w \<Rightarrow> 'w) option \<Rightarrow> ('v, 'w) Cache_mu" where
  "NewCache_mu n cb = \<lparr>inner = NewCache n cb, lock = False\<rparr>"

definition Lock :: "('v, 'w) Cache_mu \<Rightarrow> ('v, 'w) Cache_mu outcome" where
  "Lock s = (if lock s then Blocked else Returned (s\<lparr>lock := True\<rparr>))"

definition Unlock :: "('v, 'w) Cache_mu \<Rightarrow> ('v, 'w) Cache_mu" where
  "Unlock s = s\<lparr>lock := False\<rparr>"

text \<open>\<open>Len\<close>: \<open>Lock\<close>, deferred \<open>Unlock\<close>, and the length of the index.\<close>

definition Len_mu :: "('v, 'w) Cache_mu \<Rightarrow> (int \<times> ('v, 'w) Cache_mu) outcome" where
  "Len_mu s =
     (case Lock s of
        Returned s1 \<Rightarrow> Returned (Len (inner s1), Unlock s1)
      | Panicked \<Rightarrow> Panicked
      | Blocked \<Rightarrow> Blocked)"

text \<open>
  \<open>evict\<close>: \<open>Lock\<close>, deferred \<open>Unlock\<close>, and the conditional of the copy without the
  mutex.
\<close>

definition evict_mu :: "('v, 'w) Cache_mu \<Rightarrow> 'w \<Rightarrow> (('v, 'w) Cache_mu \<times> 'w) outcome" where
  "evict_mu s w =
     (case Lock s of
        Returned s1 \<Rightarrow>
          (case evict (inner s1) w of
             None \<Rightarrow> Panicked
           | Some (l, w') \<Rightarrow> Returned (Unlock (s1\<lparr>inner := l\<rparr>), w'))
      | Panicked \<Rightarrow> Panicked
      | Blocked \<Rightarrow> Blocked)"

text \<open>
  \<open>Unpin\<close>: \<open>Lock\<close> at the start; the only \<open>Unlock\<close> is in the branch of a pinned
  entry, before the call of \<open>evict\<close>. For a key that is absent or not pinned the
  method returns with the mutex held.
\<close>

definition Unpin_mu :: "string \<Rightarrow> ('v, 'w) Cache_mu \<Rightarrow> 'w \<Rightarrow> (('v, 'w) Cache_mu \<times> 'w) outcome" where
  "Unpin_mu key s w =
     (case Lock s of
        Returned s1 \<Rightarrow>
          (case cache (inner s1) key of
             Some e \<Rightarrow>
               (if pinned e then
                  evict_mu (Unlock (s1\<lparr>inner := unpinned key e (inner s1)\<rparr>)) w
                else Returned (s1, w))
           | None \<Rightarrow> Returned (s1, w))
      | Panicked \<Rightarrow> Panicked
      | Blocked \<Rightarrow> Blocked)"

section \<open>Properties of the cache with pinned members\<close>

subsection \<open>The representation invariant\<close>


lemma length_remove1_mem: "k \<in> set l \<Longrightarrow> Suc (length l - Suc 0) = length l"
  by (cases l) auto

lemma Get_inv:
  assumes "cache_inv lru"
  shows "\<exists>r lru'. Get k lru = Some (r, lru') \<and> cache_inv lru' \<and> size_c lru' = size_c lru
           \<and> evictedCallback lru' = evictedCallback lru \<and> length (q lru') = length (q lru)
           \<and> cache lru' = cache lru"
proof (cases "cache lru k")
  case None
  then show ?thesis using assms by (auto simp: Get_def)
next
  case (Some e)
  show ?thesis
  proof (cases "pinned e")
    case True
    then show ?thesis using assms Some by (auto simp: Get_def)
  next
    case False
    have p: "position e = Some k" "k \<in> set (q lru)"
      using assms Some False by (auto simp: cache_inv_def unpinned_keys_def)
    have "cache_inv (lru\<lparr>q := k # remove1 k (q lru)\<rparr>)"
      using assms p unfolding cache_inv_def unpinned_keys_def by auto
    then show ?thesis using Some False p
      by (auto simp: Get_def MoveToFront_def length_remove1 length_remove1_mem)
  qed
qed

lemma evict_inv:
  assumes "cache_inv lru" "q lru \<noteq> []"
  shows "\<exists>lru' w'. evict lru w = Some (lru', w') \<and> cache_inv lru' \<and> size_c lru' = size_c lru
           \<and> evictedCallback lru' = evictedCallback lru
           \<and> (int (length (q lru)) \<le> size_c lru + 1 \<longrightarrow> int (length (q lru')) \<le> size_c lru)"
proof (cases "int (length (q lru)) > size_c lru")
  case False
  then show ?thesis using assms by (simp add: evict_def)
next
  case True
  obtain xs x where q: "q lru = xs @ [x]" using assms(2) by (metis rev_exhaust)
  have d: "distinct xs" "x \<notin> set xs" using assms(1) q by (auto simp: cache_inv_def)
  have u: "{k. \<exists>e. cache lru k = Some e \<and> \<not> pinned e} = set xs \<union> {x}"
    using assms(1) q by (auto simp: cache_inv_def unpinned_keys_def)
  have "cache_inv (lru\<lparr>q := xs, cache := (cache lru)(x := None)\<rparr>)"
    using assms(1) d u unfolding cache_inv_def unpinned_keys_def
    by auto
  then show ?thesis using True q by (simp add: evict_def Back_def)
qed

lemma Add_inv:
  assumes "cache_inv lru"
  shows "\<exists>lru' w'. Add k d lru w = Some (lru', w') \<and> cache_inv lru' \<and> size_c lru' = size_c lru
           \<and> evictedCallback lru' = evictedCallback lru
           \<and> (int (length (q lru)) \<le> size_c lru \<longrightarrow> int (length (q lru')) \<le> size_c lru)"
proof (cases "cache lru k")
  case None
  let ?m = "lru\<lparr>q := PushFront k (q lru),
              cache := (cache lru)(k \<mapsto> \<lparr>data = d, pinned = False, position = Some k\<rparr>)\<rparr>"
  have kq: "k \<notin> set (q lru)" using assms None by (auto simp: cache_inv_def unpinned_keys_def)
  have "cache_inv ?m"
    using assms None kq unfolding cache_inv_def
    by (auto simp: PushFront_def unpinned_keys_def)
  moreover have "q ?m \<noteq> []" by (simp add: PushFront_def)
  ultimately show ?thesis
    using evict_inv[of ?m w] None by (auto simp: Add_def PushFront_def)
next
  case (Some e)
  show ?thesis
  proof (cases "pinned e")
    case True
    have "cache_inv (lru\<lparr>cache := (cache lru)(k \<mapsto> e\<lparr>data := d\<rparr>)\<rparr>)"
      using assms Some True unfolding cache_inv_def
      by (auto simp: unpinned_keys_def)
    then show ?thesis using Some True by (simp add: Add_def)
  next
    case False
    have p: "position e = Some k" "k \<in> set (q lru)"
      using assms Some False by (auto simp: cache_inv_def unpinned_keys_def)
    have "cache_inv (lru\<lparr>q := k # remove1 k (q lru), cache := (cache lru)(k \<mapsto> e\<lparr>data := d\<rparr>)\<rparr>)"
      using assms Some False p unfolding cache_inv_def
      by (auto simp: unpinned_keys_def)
    then show ?thesis using Some False p
      by (simp add: Add_def MoveToFront_def length_remove1 length_remove1_mem)
  qed
qed

lemma Pin_inv:
  assumes "cache_inv lru"
  shows "\<exists>lru'. Pin k lru = Some lru' \<and> cache_inv lru' \<and> size_c lru' = size_c lru
           \<and> evictedCallback lru' = evictedCallback lru
           \<and> length (q lru') \<le> length (q lru)"
proof (cases "cache lru k")
  case None
  then show ?thesis using assms by (simp add: Pin_def)
next
  case (Some e)
  show ?thesis
  proof (cases "pinned e")
    case True
    then show ?thesis using assms Some by (simp add: Pin_def)
  next
    case False
    have p: "position e = Some k" "k \<in> set (q lru)"
      using assms Some False by (auto simp: cache_inv_def unpinned_keys_def)
    have "cache_inv (lru\<lparr>q := remove1 k (q lru),
             cache := (cache lru)(k \<mapsto> e\<lparr>pinned := True, position := None\<rparr>)\<rparr>)"
      using assms Some False p unfolding cache_inv_def
      by (auto simp: unpinned_keys_def)
    then show ?thesis using Some False p
      by (simp add: Pin_def Remove_def length_remove1)
  qed
qed

lemma Unpin_inv:
  assumes "cache_inv lru"
  shows "\<exists>lru' w'. Unpin k lru w = Some (lru', w') \<and> cache_inv lru' \<and> size_c lru' = size_c lru
           \<and> evictedCallback lru' = evictedCallback lru
           \<and> (int (length (q lru)) \<le> size_c lru \<longrightarrow> int (length (q lru')) \<le> size_c lru)"
proof (cases "cache lru k")
  case None
  then show ?thesis using assms by (simp add: Unpin_def)
next
  case (Some e)
  show ?thesis
  proof (cases "pinned e")
    case False
    then show ?thesis using assms Some by (simp add: Unpin_def)
  next
    case True
    let ?m = "lru\<lparr>q := PushFront k (q lru),
                cache := (cache lru)(k \<mapsto> e\<lparr>pinned := False, position := Some k\<rparr>)\<rparr>"
    have kq: "k \<notin> set (q lru)" using assms Some True by (auto simp: cache_inv_def unpinned_keys_def)
    have "cache_inv ?m"
      using assms Some True kq unfolding cache_inv_def
      by (auto simp: PushFront_def unpinned_keys_def)
    moreover have "q ?m \<noteq> []" by (simp add: PushFront_def)
    ultimately show ?thesis
      using evict_inv[of ?m w] Some True by (auto simp: Unpin_def PushFront_def)
  qed
qed

lemma exec_inv:
  assumes "cache_inv lru"
  shows "\<exists>lru' w'. exec c (lru, w) = Some (lru', w') \<and> cache_inv lru' \<and> size_c lru' = size_c lru
           \<and> evictedCallback lru' = evictedCallback lru
           \<and> (int (length (q lru)) \<le> size_c lru \<longrightarrow> int (length (q lru')) \<le> size_c lru)"
proof (cases c)
  case (CGet k)
  then show ?thesis using Get_inv[OF assms, of k] by auto
next
  case (CAdd k d)
  then show ?thesis using Add_inv[OF assms, of k d w] by simp
next
  case (CPin k)
  then show ?thesis using Pin_inv[OF assms, of k] by auto
next
  case (CUnpin k)
  then show ?thesis using Unpin_inv[OF assms, of k w] by simp
qed (use assms in simp_all)

lemma run_inv:
  assumes "cache_inv lru"
  shows "\<exists>lru' w'. run cs (lru, w) = Some (lru', w') \<and> cache_inv lru' \<and> size_c lru' = size_c lru
           \<and> evictedCallback lru' = evictedCallback lru
           \<and> (int (length (q lru)) \<le> size_c lru \<longrightarrow> int (length (q lru')) \<le> size_c lru)"
  using assms
proof (induction cs arbitrary: lru w)
  case Nil
  then show ?case by simp
next
  case (Cons c cs)
  obtain l1 w1 where s: "exec c (lru, w) = Some (l1, w1)" "cache_inv l1" "size_c l1 = size_c lru"
      "evictedCallback l1 = evictedCallback lru"
      "int (length (q lru)) \<le> size_c lru \<longrightarrow> int (length (q l1)) \<le> size_c lru"
    using exec_inv[OF Cons.prems, of c w] by blast
  from Cons.IH[OF s(2), of w1] s show ?case by auto
qed

lemma NewCache_inv: "cache_inv (NewCache n cb)"
  by (simp add: cache_inv_def NewCache_def unpinned_keys_def)

lemma Len_split:
  assumes "cache_inv lru"
  shows "Len lru = int (length (q lru)) + int (card (pinned_keys lru))"
proof -
  have d: "dom (cache lru) = unpinned_keys lru \<union> pinned_keys lru"
    by (auto simp: unpinned_keys_def pinned_keys_def)
  have dj: "unpinned_keys lru \<inter> pinned_keys lru = {}"
    by (auto simp: unpinned_keys_def pinned_keys_def)
  have f: "finite (unpinned_keys lru)" "finite (pinned_keys lru)"
    using assms d by (auto simp: cache_inv_def)
  have "card (unpinned_keys lru) = length (q lru)"
    using assms distinct_card[of "q lru"] by (simp add: cache_inv_def)
  then show ?thesis using card_Un_disjoint[OF f dj] d by (simp add: Len_def)
qed

text \<open>
  Claim C3. With a size that is not negative, every sequence of public calls on a new
  cache returns, and the state it reaches satisfies: the queue has no duplicates and
  its keys are exactly the unpinned keys of the index (one queue entry for each
  unpinned entry and conversely), no pinned key is in the queue, the queue is no longer
  than the size, and \<open>Len\<close> is the length of the queue plus the number of pinned
  entries, so it exceeds the size by the number of pinned entries at most.
\<close>

theorem C3_count_cache_invariant:
  assumes "0 \<le> n"
  shows "\<exists>lru w. run cs (NewCache n cb, w0) = Some (lru, w) \<and>
           distinct (q lru) \<and> set (q lru) = unpinned_keys lru \<and>
           set (q lru) \<inter> pinned_keys lru = {} \<and>
           int (length (q lru)) \<le> n \<and> Size lru = n \<and>
           Len lru = int (length (q lru)) + int (card (pinned_keys lru)) \<and>
           Len lru \<le> n + int (card (pinned_keys lru))"
proof -
  obtain lru w where r: "run cs (NewCache n cb, w0) = Some (lru, w)" "cache_inv lru"
      "size_c lru = n" "int (length (q lru)) \<le> n"
    using run_inv[OF NewCache_inv, of cs n cb w0] assms by (auto simp: NewCache_def)
  have "set (q lru) \<inter> pinned_keys lru = {}"
    using r(2) by (auto simp: cache_inv_def unpinned_keys_def pinned_keys_def)
  then show ?thesis using r Len_split[OF r(2)] by (auto simp: cache_inv_def Size_def)
qed

theorem C3_count_cache_invariant_witness:
  "(0::int) \<le> 3 \<and>
   (\<exists>lru w. run [CAdd ''1'' (Some (1::nat)), CAdd ''2'' (Some 2), CPin ''2'', CAdd ''3'' None,
                 CGet ''1'', CUnpin ''2''] (NewCache 3 None, ()) = Some (lru, w) \<and>
           distinct (q lru) \<and> set (q lru) = unpinned_keys lru \<and>
           set (q lru) \<inter> pinned_keys lru = {} \<and>
           int (length (q lru)) \<le> 3 \<and> Size lru = 3 \<and>
           Len lru = int (length (q lru)) + int (card (pinned_keys lru)) \<and>
           Len lru \<le> 3 + int (card (pinned_keys lru)))"
  using C3_count_cache_invariant [of 3 "[CAdd ''1'' (Some (1::nat)), CAdd ''2'' (Some 2), CPin ''2'',
    CAdd ''3'' None, CGet ''1'', CUnpin ''2'']" None "()"]
  by simp

section \<open>Properties of the cache of weighted segments\<close>

subsection \<open>The representation invariant and the loop of eviction\<close>

lemma weight_map_cong:
  "(\<And>k. k \<in> set l \<Longrightarrow> a k = b k) \<Longrightarrow> map (weight a) l = map (weight b) l"
  by (simp add: weight_def)

lemma seg_inv_step:
  assumes "seg_inv lru" "q_s lru = xs @ [x]" "cache_s lru x = Some e"
  shows "seg_inv (lru\<lparr>q_s := xs, usedCapacity := usedCapacity lru - size_s e,
                     cache_s := (cache_s lru)(x := None)\<rparr>)"
proof -
  have d: "distinct xs" "x \<notin> set xs" using assms by (auto simp: seg_inv_def)
  have s: "dom (cache_s lru) = set xs \<union> {x}" using assms by (auto simp: seg_inv_def)
  have m: "map (weight ((cache_s lru)(x := None))) xs = map (weight (cache_s lru)) xs"
    using d by (intro weight_map_cong) auto
  have u: "usedCapacity lru = sum_list (map (weight (cache_s lru)) xs) + size_s e"
    using assms by (simp add: seg_inv_def weight_def)
  have 1: "set xs = dom ((cache_s lru)(x := None))" using s d by auto
  have 2: "usedCapacity lru - size_s e = sum_list (map (weight ((cache_s lru)(x := None))) xs)"
    unfolding m u by simp
  have 3: "\<forall>k e. ((cache_s lru)(x := None)) k = Some e \<longrightarrow> position_s e = Some k"
    using assms(1) by (simp add: seg_inv_def)
  show ?thesis unfolding seg_inv_def using d(1) 1 2 3 by simp
qed

lemma Back_snoc: "Back (xs @ [x]) = Some x"
  by (simp add: Back_def)

lemma evict_s_total:
  assumes "seg_inv lru" "0 \<le>s capacity lru"
  shows "\<exists>lru' w'. evict_s lru w = Some (lru', w')"
  using assms
proof (induction lru w rule: evict_s.induct)
  case (1 lru w)
  show ?case
  proof (cases "capacity lru <s usedCapacity lru")
    case False
    then show ?thesis by (simp add: evict_s.simps)
  next
    case True
    have "q_s lru \<noteq> []"
    proof
      assume "q_s lru = []"
      then have "usedCapacity lru = 0" using "1.prems" by (simp add: seg_inv_def)
      then show False using True "1.prems"(2) by (simp add: word_sless_alt word_sle_eq)
    qed
    then obtain xs x where q: "q_s lru = xs @ [x]" by (metis rev_exhaust)
    have "x \<in> dom (cache_s lru)" using "1.prems"(1) q by (auto simp: seg_inv_def)
    then obtain e where e: "cache_s lru x = Some e" by blast
    let ?n = "lru\<lparr>q_s := butlast (q_s lru), usedCapacity := usedCapacity lru - size_s e,
                     cache_s := (cache_s lru)(x := None)\<rparr>"
    have b: "Back (q_s lru) = Some x" using q by (simp add: Back_snoc)
    have i: "seg_inv ?n" using seg_inv_step[OF "1.prems"(1) q e] q by simp
    have c: "0 \<le>s capacity ?n" using "1.prems"(2) by simp
    from "1.IH"[OF True b e i c] show ?thesis
      using True b e by (subst evict_s.simps) simp
  qed
qed

lemma evict_s_rule:
  assumes "evict_s lru w = Some (lru', w')" and "P lru w"
    and "\<And>l v x e. P l v \<Longrightarrow> capacity l <s usedCapacity l \<Longrightarrow> Back (q_s l) = Some x \<Longrightarrow>
            cache_s l x = Some e \<Longrightarrow>
            P (l\<lparr>q_s := butlast (q_s l), usedCapacity := usedCapacity l - size_s e,
                  cache_s := (cache_s l)(x := None)\<rparr>)
              (case evictedCallback_s l of None \<Rightarrow> v | Some cb \<Rightarrow> cb x v)"
  shows "P lru' w' \<and> \<not> capacity lru' <s usedCapacity lru'"
  using assms(1,2)
proof (induction lru w rule: evict_s.induct)
  case (1 lru w)
  show ?case
  proof (cases "capacity lru <s usedCapacity lru")
    case False
    then show ?thesis using "1.prems" by (simp add: evict_s.simps)
  next
    case True
    from "1.prems"(1) True obtain x e where b: "Back (q_s lru) = Some x" and e: "cache_s lru x = Some e"
      by (subst (asm) evict_s.simps) (auto split: option.splits)
    let ?n = "lru\<lparr>q_s := butlast (q_s lru), usedCapacity := usedCapacity lru - size_s e,
                     cache_s := (cache_s lru)(x := None)\<rparr>"
    let ?v = "case evictedCallback_s lru of None \<Rightarrow> w | Some cb \<Rightarrow> cb x w"
    have r: "evict_s ?n ?v = Some (lru', w')"
      using "1.prems"(1) True b e by (subst (asm) evict_s.simps) simp
    have p: "P ?n ?v" using assms(3)[OF "1.prems"(2) True b e] .
    from "1.IH"[OF True b e r p] show ?thesis .
  qed
qed

lemma calls_Nil: "calls cb [] w = w"
  by (simp add: calls_def split: option.splits)

lemma calls_snoc:
  "calls cb (ks @ [k]) w = (case cb of None \<Rightarrow> calls cb ks w | Some f \<Rightarrow> f k (calls cb ks w))"
  by (simp add: calls_def split: option.splits)

lemma Back_Some: "Back l = Some x \<Longrightarrow> l = butlast l @ [x]"
  by (auto simp: Back_def split: if_splits)

lemma evict_s_effect:
  assumes "seg_inv lru" "evict_s lru w = Some (lru', w')"
  shows "seg_inv lru' \<and> capacity lru' = capacity lru \<and>
         evictedCallback_s lru' = evictedCallback_s lru \<and>
         usedCapacity lru' \<le>s capacity lru' \<and>
         (\<exists>ks. q_s lru = q_s lru' @ rev ks \<and> w' = calls (evictedCallback_s lru) ks w \<and>
               cache_s lru' = (\<lambda>k. if k \<in> set ks then None else cache_s lru k))"
proof -
  let ?P = "\<lambda>l v. seg_inv l \<and> capacity l = capacity lru \<and>
         evictedCallback_s l = evictedCallback_s lru \<and>
         (\<exists>ks. q_s lru = q_s l @ rev ks \<and> v = calls (evictedCallback_s lru) ks w \<and>
               cache_s l = (\<lambda>k. if k \<in> set ks then None else cache_s lru k))"
  have init: "?P lru w"
    using assms(1) by (auto simp: calls_Nil intro: exI[of _ "[]"])
  have step: "?P (l\<lparr>q_s := butlast (q_s l), usedCapacity := usedCapacity l - size_s e,
                  cache_s := (cache_s l)(x := None)\<rparr>)
              (case evictedCallback_s l of None \<Rightarrow> v | Some cb \<Rightarrow> cb x v)"
    if p: "?P l v" and b: "Back (q_s l) = Some x" and e: "cache_s l x = Some e" for l v x e
  proof -
    have q: "q_s l = butlast (q_s l) @ [x]" using b by (rule Back_Some)
    from p obtain ks where ks: "q_s lru = q_s l @ rev ks" "v = calls (evictedCallback_s lru) ks w"
        "cache_s l = (\<lambda>k. if k \<in> set ks then None else cache_s lru k)" by blast
    have i: "seg_inv (l\<lparr>q_s := butlast (q_s l), usedCapacity := usedCapacity l - size_s e,
                  cache_s := (cache_s l)(x := None)\<rparr>)"
      using seg_inv_step[OF _ q e] p by simp
    have 1: "q_s lru = butlast (q_s l) @ rev (ks @ [x])" using ks(1) q by simp
    have 2: "(case evictedCallback_s l of None \<Rightarrow> v | Some cb \<Rightarrow> cb x v) =
               calls (evictedCallback_s lru) (ks @ [x]) w"
      using p ks(2) by (simp add: calls_snoc split: option.splits)
    have 3: "(cache_s l)(x := None) = (\<lambda>k. if k \<in> set (ks @ [x]) then None else cache_s lru k)"
      using ks(3) by auto
    show ?thesis using i p 1 2 3 by (intro conjI exI[of _ "ks @ [x]"]) simp_all
  qed
  from evict_s_rule[where P = ?P, OF assms(2) init step]
  show ?thesis by (auto simp: word_sless_alt word_sle_eq not_less)
qed

lemma sum_list_move:
  fixes f :: "string \<Rightarrow> int64"
  shows "k \<in> set l \<Longrightarrow> sum_list (map f (k # remove1 k l)) = sum_list (map f l)"
  by (simp add: sum_list_map_remove1)

lemma seg_inv_move:
  assumes "seg_inv lru" "k \<in> set (q_s lru)"
  shows "seg_inv (lru\<lparr>q_s := k # remove1 k (q_s lru)\<rparr>)"
  using assms sum_list_move[OF assms(2), of "weight (cache_s lru)"]
  unfolding seg_inv_def by auto

lemma seg_inv_data:
  assumes "seg_inv lru" "cache_s lru k = Some e"
  shows "seg_inv (lru\<lparr>cache_s := (cache_s lru)(k \<mapsto> e\<lparr>data_s := d\<rparr>)\<rparr>)"
proof -
  let ?m = "(cache_s lru)(k \<mapsto> e\<lparr>data_s := d\<rparr>)"
  have "map (weight ?m) (q_s lru) = map (weight (cache_s lru)) (q_s lru)"
    using assms(2) by (simp add: weight_def)
  then have 3: "sum_list (map (weight ?m) (q_s lru)) = usedCapacity lru"
    using assms(1) by (simp only: seg_inv_def)
  have 1: "set (q_s lru) = dom ?m"
    using assms by (auto simp: seg_inv_def)
  have 2: "\<forall>k' e'. ?m k' = Some e' \<longrightarrow> position_s e' = Some k'"
    using assms by (auto simp: seg_inv_def)
  have 4: "distinct (q_s lru)" using assms(1) by (simp add: seg_inv_def)
  show ?thesis unfolding seg_inv_def using 1 2 3 4 by simp
qed

lemma seg_inv_push:
  assumes "seg_inv lru" "cache_s lru k = None"
  shows "seg_inv (lru\<lparr>q_s := PushFront k (q_s lru), usedCapacity := usedCapacity lru + sz,
            cache_s := (cache_s lru)(k \<mapsto> \<lparr>size_s = sz, data_s = d, position_s = Some k\<rparr>)\<rparr>)"
proof -
  let ?m = "(cache_s lru)(k \<mapsto> \<lparr>size_s = sz, data_s = d, position_s = Some k\<rparr>)"
  have kq: "k \<notin> set (q_s lru)" using assms by (auto simp: seg_inv_def)
  have "map (weight ?m) (q_s lru) = map (weight (cache_s lru)) (q_s lru)"
    using kq by (intro weight_map_cong) auto
  then have "sum_list (map (weight ?m) (q_s lru)) = usedCapacity lru"
    using assms(1) by (simp only: seg_inv_def)
  then have 3: "usedCapacity lru + sz = sum_list (map (weight ?m) (k # q_s lru))"
    by (simp add: weight_def)
  have 1: "set (k # q_s lru) = dom ?m" using assms by (auto simp: seg_inv_def)
  have 2: "\<forall>k' e'. ?m k' = Some e' \<longrightarrow> position_s e' = Some k'"
    using assms by (auto simp: seg_inv_def)
  have 4: "distinct (k # q_s lru)" using assms(1) kq by (simp add: seg_inv_def)
  show ?thesis unfolding seg_inv_def PushFront_def using 1 2 3 4 by simp
qed

lemma Get_s_absent: "cache_s lru k = None \<Longrightarrow> Get_s k lru = Some ((None, False), lru)"
  by (simp add: Get_s_def)

lemma Get_s_present:
  assumes "seg_inv lru" "cache_s lru k = Some e"
  shows "Get_s k lru = Some ((data_s e, True), lru\<lparr>q_s := k # remove1 k (q_s lru)\<rparr>)"
proof -
  have "position_s e = Some k" "k \<in> set (q_s lru)" using assms by (auto simp: seg_inv_def)
  then show ?thesis using assms(2) by (simp add: Get_s_def MoveToFront_def)
qed

lemma Add_s_present:
  assumes "seg_inv lru" "cache_s lru k = Some e"
  shows "Add_s k d sz lru w =
           Some (lru\<lparr>q_s := k # remove1 k (q_s lru), cache_s := (cache_s lru)(k \<mapsto> e\<lparr>data_s := d\<rparr>)\<rparr>, w)"
proof -
  have "position_s e = Some k" "k \<in> set (q_s lru)" using assms by (auto simp: seg_inv_def)
  then show ?thesis using assms(2) by (simp add: Add_s_def MoveToFront_def)
qed

lemma Add_s_absent:
  "cache_s lru k = None \<Longrightarrow>
   Add_s k d sz lru w =
     evict_s (lru\<lparr>q_s := PushFront k (q_s lru), usedCapacity := usedCapacity lru + sz,
            cache_s := (cache_s lru)(k \<mapsto> \<lparr>size_s = sz, data_s = d, position_s = Some k\<rparr>)\<rparr>) w"
  by (simp add: Add_s_def)

lemma exec_s_inv:
  assumes "seg_inv lru" "exec_s c (lru, w) = Some (lru', w')"
  shows "seg_inv lru' \<and> capacity lru' = capacity lru \<and>
         evictedCallback_s lru' = evictedCallback_s lru \<and>
         (usedCapacity lru \<le>s capacity lru \<longrightarrow> usedCapacity lru' \<le>s capacity lru)"
proof (cases c)
  case (SGet k)
  show ?thesis
  proof (cases "cache_s lru k")
    case None
    then show ?thesis using assms SGet by (simp add: Get_s_absent)
  next
    case (Some e)
    have "k \<in> set (q_s lru)" using assms(1) Some by (auto simp: seg_inv_def)
    then show ?thesis
      using assms SGet Some seg_inv_move[OF assms(1), of k] by (auto simp: Get_s_present)
  qed
next
  case (SAdd k d sz)
  show ?thesis
  proof (cases "cache_s lru k")
    case None
    from assms(2) SAdd None evict_s_effect[OF seg_inv_push[OF assms(1) None, of sz d], of w lru' w']
    show ?thesis by (auto simp: Add_s_absent)
  next
    case (Some e)
    have kq: "k \<in> set (q_s lru)" using assms(1) Some by (auto simp: seg_inv_def)
    have "seg_inv (lru\<lparr>q_s := k # remove1 k (q_s lru), cache_s := (cache_s lru)(k \<mapsto> e\<lparr>data_s := d\<rparr>)\<rparr>)"
      using seg_inv_data[OF seg_inv_move[OF assms(1) kq], of k e d] Some by simp
    then show ?thesis using assms SAdd Some by (auto simp: Add_s_present)
  qed
qed (use assms in auto)

lemma exec_s_total:
  assumes "seg_inv lru" "0 \<le>s capacity lru"
  shows "\<exists>lru' w'. exec_s c (lru, w) = Some (lru', w')"
proof (cases c)
  case (SGet k)
  then show ?thesis using assms(1) by (cases "cache_s lru k") (auto simp: Get_s_absent Get_s_present)
next
  case (SAdd k d sz)
  show ?thesis
  proof (cases "cache_s lru k")
    case None
    from evict_s_total[OF seg_inv_push[OF assms(1) None, of sz d], of w] assms(2) SAdd None
    show ?thesis by (simp add: Add_s_absent)
  next
    case (Some e)
    then show ?thesis using assms(1) SAdd by (simp add: Add_s_present)
  qed
qed simp_all

lemma run_s_inv:
  assumes "seg_inv lru" "run_s cs (lru, w) = Some (lru', w')"
  shows "seg_inv lru' \<and> capacity lru' = capacity lru \<and>
         evictedCallback_s lru' = evictedCallback_s lru \<and>
         (usedCapacity lru \<le>s capacity lru \<longrightarrow> usedCapacity lru' \<le>s capacity lru)"
  using assms
proof (induction cs arbitrary: lru w)
  case Nil
  then show ?case by simp
next
  case (Cons c cs)
  from Cons.prems(2) obtain l1 w1 where s: "exec_s c (lru, w) = Some (l1, w1)"
      and r: "run_s cs (l1, w1) = Some (lru', w')"
    by (auto split: option.splits)
  from exec_s_inv[OF Cons.prems(1) s] Cons.IH[OF _ r] show ?case by auto
qed

lemma run_s_total:
  assumes "seg_inv lru" "0 \<le>s capacity lru"
  shows "\<exists>lru' w'. run_s cs (lru, w) = Some (lru', w')"
  using assms
proof (induction cs arbitrary: lru w)
  case Nil
  then show ?case by simp
next
  case (Cons c cs)
  obtain l1 w1 where s: "exec_s c (lru, w) = Some (l1, w1)"
    using exec_s_total[OF Cons.prems] by blast
  from exec_s_inv[OF Cons.prems(1) s] Cons.prems(2) have "seg_inv l1" "0 \<le>s capacity l1" by auto
  from Cons.IH[OF this] s show ?case by simp
qed

lemma NewSegmentCache_inv: "seg_inv (NewSegmentCache c cb)"
  by (simp add: seg_inv_def NewSegmentCache_def)

section \<open>The claims about single calls\<close>

subsection \<open>What the calls return\<close>

lemma Get_absent: "cache lru k = None \<Longrightarrow> Get k lru = Some ((None, False), lru)"
  by (simp add: Get_def)

lemma Get_pinned:
  "cache lru k = Some e \<Longrightarrow> pinned e \<Longrightarrow> Get k lru = Some ((data e, True), lru)"
  by (simp add: Get_def)

lemma Get_unpinned:
  assumes "cache_inv lru" "cache lru k = Some e" "\<not> pinned e"
  shows "Get k lru = Some ((data e, True), lru\<lparr>q := k # remove1 k (q lru)\<rparr>) \<and> k \<in> set (q lru)"
proof -
  have "position e = Some k" "k \<in> set (q lru)"
    using assms by (auto simp: cache_inv_def unpinned_keys_def)
  then show ?thesis using assms(2,3) by (simp add: Get_def MoveToFront_def)
qed

lemma run_reachable:
  assumes "run cs (NewCache n cb, w0) = Some (lru, w)"
  shows "cache_inv lru \<and> size_c lru = n \<and> evictedCallback lru = cb \<and>
         (0 \<le> n \<longrightarrow> int (length (q lru)) \<le> n)"
  using run_inv[OF NewCache_inv, of cs n cb w0] assms by (auto simp: NewCache_def)

lemma run_s_reachable:
  assumes "run_s cs (NewSegmentCache c cb, w0) = Some (sl, w)"
  shows "seg_inv sl \<and> capacity sl = c \<and> evictedCallback_s sl = cb \<and>
         (0 \<le>s c \<longrightarrow> usedCapacity sl \<le>s c)"
  using run_s_inv[OF NewSegmentCache_inv assms] by (auto simp: NewSegmentCache_def)

text \<open>
  Claim C10. A new cache is empty: for every key \<open>Get\<close> returns \<open>(nil, false)\<close> and
  leaves the cache as it is, \<open>HasKey\<close> is false and \<open>IsPinned\<close> returns an error; \<open>Len\<close>
  is 0 and the queue is empty; the used capacity of the weighted cache is 0; the size
  and the capacity are the ones given, whatever they are.
\<close>

theorem C10_new_cache_empty:
  "Get k (NewCache n cb) = Some ((None, False), NewCache n cb) \<and>
   HasKey k (NewCache n cb) = False \<and>
   IsPinned k (NewCache n cb) = (False, Some (k @ '': not in cache'')) \<and>
   Len (NewCache n cb) = 0 \<and> q (NewCache n cb) = [] \<and> Size (NewCache n cb) = n \<and>
   Get_s k (NewSegmentCache c cb') = Some ((None, False), NewSegmentCache c cb') \<and>
   HasKey_s k (NewSegmentCache c cb') = False \<and>
   Len_s (NewSegmentCache c cb') = 0 \<and> q_s (NewSegmentCache c cb') = [] \<and>
   UsedCapacity (NewSegmentCache c cb') = 0 \<and> Capacity (NewSegmentCache c cb') = c"
  by (simp add: Get_def HasKey_def IsPinned_def Len_def Size_def NewCache_def
      Get_s_def HasKey_s_def Len_s_def UsedCapacity_def Capacity_def NewSegmentCache_def)

text \<open>
  Claim C9. \<open>IsPinned\<close> returns an error exactly when the key is not in the index; for
  a key of the index it returns the pinned flag of the entry and no error; the call
  leaves the cache and the world as they are. The other queries have no error in their
  result: for a key that is absent, \<open>Get\<close> of either cache returns \<open>nil\<close> and the
  flag \<open>false\<close>, and \<open>HasKey\<close> returns \<open>false\<close>.
\<close>

theorem C9_IsPinned_error:
  "(snd (IsPinned k lru) \<noteq> None) = (k \<notin> dom (cache lru)) \<and>
   (\<forall>e. cache lru k = Some e \<longrightarrow> IsPinned k lru = (pinned e, None)) \<and>
   (cache lru k = None \<longrightarrow>
      IsPinned k lru = (False, Some (k @ '': not in cache'')) \<and>
      Get k lru = Some ((None, False), lru) \<and> \<not> HasKey k lru) \<and>
   exec (CIsPinned k) (lru, w) = Some (lru, w) \<and>
   (cache_s sl k = None \<longrightarrow> Get_s k sl = Some ((None, False), sl) \<and> \<not> HasKey_s k sl)"
  by (auto simp: IsPinned_def HasKey_def HasKey_s_def Get_def Get_s_def split: option.splits)

theorem C9_IsPinned_error_witness:
  "cache (\<lparr>size_c = 3, cache = [''a'' \<mapsto> \<lparr>data = Some (1::nat), pinned = True, position = None\<rparr>],
            q = [], evictedCallback = None\<rparr> :: (nat, unit) Cache) ''a''
     = Some \<lparr>data = Some 1, pinned = True, position = None\<rparr> \<and>
   IsPinned ''a'' (\<lparr>size_c = 3, cache = [''a'' \<mapsto> \<lparr>data = Some (1::nat), pinned = True, position = None\<rparr>],
            q = [], evictedCallback = None\<rparr> :: (nat, unit) Cache) = (True, None) \<and>
   cache (NewCache 3 None :: (nat, unit) Cache) ''b'' = None \<and>
   IsPinned ''b'' (NewCache 3 None :: (nat, unit) Cache) = (False, Some ''b: not in cache'') \<and>
   cache_s (NewSegmentCache 3 None :: (nat, unit) SegmentCache) ''b'' = None \<and>
   Get_s ''b'' (NewSegmentCache 3 None :: (nat, unit) SegmentCache)
     = Some ((None, False), NewSegmentCache 3 None)"
  using C9_IsPinned_error [of "''a''" "\<lparr>size_c = 3, cache = [''a'' \<mapsto> \<lparr>data = Some (1::nat), pinned = True, position = None\<rparr>],
            q = [], evictedCallback = None\<rparr> :: (nat, unit) Cache" "()" "NewSegmentCache 3 None :: (nat, unit) SegmentCache"]
    C9_IsPinned_error [of "''b''" "NewCache 3 None :: (nat, unit) Cache" "()" "NewSegmentCache 3 None :: (nat, unit) SegmentCache"]
  by (simp add: NewCache_def NewSegmentCache_def)

text \<open>
  Claim C7. In a state reached by public calls, \<open>Get\<close> of a key of the index returns
  the stored value and \<open>true\<close>; the only field it changes is the queue, where the key
  moves to the front and the other keys keep their order (in the cache with pinned
  members the queue does not change when the entry is pinned); so the index, with its
  keys and values, \<open>Len\<close> and the used capacity are as before. \<open>Get\<close> of a key
  that is absent returns \<open>(nil, false)\<close> and the state as it was.
\<close>

theorem C7_Get_frame:
  assumes "run cs (NewCache n cb, w0) = Some (lru, w)"
    and "run_s cs' (NewSegmentCache c cb', w0') = Some (sl, w')"
  shows "(cache lru k = None \<longrightarrow> Get k lru = Some ((None, False), lru)) \<and>
    (\<forall>e. cache lru k = Some e \<and> pinned e \<longrightarrow> Get k lru = Some ((data e, True), lru)) \<and>
    (\<forall>e. cache lru k = Some e \<and> \<not> pinned e \<longrightarrow>
       k \<in> set (q lru) \<and>
       Get k lru = Some ((data e, True), lru\<lparr>q := k # remove1 k (q lru)\<rparr>) \<and>
       Len (lru\<lparr>q := k # remove1 k (q lru)\<rparr>) = Len lru) \<and>
    (cache_s sl k' = None \<longrightarrow> Get_s k' sl = Some ((None, False), sl)) \<and>
    (\<forall>e. cache_s sl k' = Some e \<longrightarrow>
       k' \<in> set (q_s sl) \<and>
       Get_s k' sl = Some ((data_s e, True), sl\<lparr>q_s := k' # remove1 k' (q_s sl)\<rparr>) \<and>
       Len_s (sl\<lparr>q_s := k' # remove1 k' (q_s sl)\<rparr>) = Len_s sl \<and>
       UsedCapacity (sl\<lparr>q_s := k' # remove1 k' (q_s sl)\<rparr>) = UsedCapacity sl)"
proof -
  have i: "cache_inv lru" using run_reachable[OF assms(1)] by simp
  have j: "seg_inv sl" using run_s_reachable[OF assms(2)] by simp
  have 1: "cache lru k = None \<longrightarrow> Get k lru = Some ((None, False), lru)"
    by (simp add: Get_absent)
  have 2: "\<forall>e. cache lru k = Some e \<and> pinned e \<longrightarrow> Get k lru = Some ((data e, True), lru)"
    by (simp add: Get_pinned)
  have 3: "\<forall>e. cache lru k = Some e \<and> \<not> pinned e \<longrightarrow>
       k \<in> set (q lru) \<and>
       Get k lru = Some ((data e, True), lru\<lparr>q := k # remove1 k (q lru)\<rparr>) \<and>
       Len (lru\<lparr>q := k # remove1 k (q lru)\<rparr>) = Len lru"
    using Get_unpinned[OF i] by (simp add: Len_def)
  have 4: "cache_s sl k' = None \<longrightarrow> Get_s k' sl = Some ((None, False), sl)"
    by (simp add: Get_s_absent)
  have 5: "\<forall>e. cache_s sl k' = Some e \<longrightarrow>
       k' \<in> set (q_s sl) \<and>
       Get_s k' sl = Some ((data_s e, True), sl\<lparr>q_s := k' # remove1 k' (q_s sl)\<rparr>) \<and>
       Len_s (sl\<lparr>q_s := k' # remove1 k' (q_s sl)\<rparr>) = Len_s sl \<and>
       UsedCapacity (sl\<lparr>q_s := k' # remove1 k' (q_s sl)\<rparr>) = UsedCapacity sl"
    using Get_s_present[OF j] j by (auto simp: Len_s_def UsedCapacity_def seg_inv_def)
  from 1 2 3 4 5 show ?thesis by blast
qed

theorem C7_Get_frame_witness:
  "\<exists>lru sl.
     run [CAdd ''1'' (Some (1::nat)), CAdd ''2'' (Some 2)] (NewCache 3 None, ()) = Some (lru, ()) \<and>
     run_s [SAdd ''1'' (Some (1::nat)) 1, SAdd ''2'' (Some 2) 1] (NewSegmentCache 3 None, ()) = Some (sl, ()) \<and>
     q lru = [''2'', ''1''] \<and> q_s sl = [''2'', ''1''] \<and>
     Get ''1'' lru = Some ((Some 1, True), lru\<lparr>q := [''1'', ''2'']\<rparr>) \<and>
     Get_s ''1'' sl = Some ((Some 1, True), sl\<lparr>q_s := [''1'', ''2'']\<rparr>) \<and>
     Get ''3'' lru = Some ((None, False), lru) \<and>
     Get_s ''3'' sl = Some ((None, False), sl)"
proof -
  let ?L = "\<lparr>size_c = 3,
      cache = [''1'' \<mapsto> \<lparr>data = Some (1::nat), pinned = False, position = Some ''1''\<rparr>,
               ''2'' \<mapsto> \<lparr>data = Some 2, pinned = False, position = Some ''2''\<rparr>],
      q = [''2'', ''1''], evictedCallback = None :: (string \<Rightarrow> unit \<Rightarrow> unit) option\<rparr>"
  let ?S = "\<lparr>capacity = 3, usedCapacity = 2,
      cache_s = [''1'' \<mapsto> \<lparr>size_s = 1, data_s = Some (1::nat), position_s = Some ''1''\<rparr>,
                 ''2'' \<mapsto> \<lparr>size_s = 1, data_s = Some 2, position_s = Some ''2''\<rparr>],
      q_s = [''2'', ''1''], evictedCallback_s = None :: (string \<Rightarrow> unit \<Rightarrow> unit) option\<rparr>"
  have r1: "run [CAdd ''1'' (Some (1::nat)), CAdd ''2'' (Some 2)] (NewCache 3 None, ()) = Some (?L, ())"
    by (simp add: NewCache_def Add_def evict_def PushFront_def)
  have r2: "run_s [SAdd ''1'' (Some (1::nat)) 1, SAdd ''2'' (Some 2) 1] (NewSegmentCache 3 None, ())
              = Some (?S, ())"
    by (simp add: NewSegmentCache_def Add_s_def evict_s.simps PushFront_def word_sless_alt)
  have a: "Get ''1'' ?L = Some ((Some 1, True), ?L\<lparr>q := [''1'', ''2'']\<rparr>) \<and>
        Get_s ''1'' ?S = Some ((Some 1, True), ?S\<lparr>q_s := [''1'', ''2'']\<rparr>)"
    using C7_Get_frame [OF r1 r2, of "''1''" "''1''"] by simp
  have b: "Get ''3'' ?L = Some ((None, False), ?L) \<and> Get_s ''3'' ?S = Some ((None, False), ?S)"
    using C7_Get_frame [OF r1 r2, of "''3''" "''3''"] by simp
  show ?thesis
    apply (rule exI[of _ ?L])
    apply (rule exI[of _ ?S])
    using r1 r2 a b apply simp
    done
qed

text \<open>
  Claim C6. In a state of the weighted cache reached by public calls, \<open>Add\<close> of a key
  of the index moves the key to the front of the queue and replaces the value of its
  entry; the weight of the entry, the used capacity, the keys of the index, the other
  entries and the world are as before, whatever weight is given, so no eviction runs
  and no callback is called. \<open>Add\<close> of a key that is not in the index puts the key at
  the front of the queue, adds the weight to the used capacity, stores the entry, and
  then runs the eviction.
\<close>

theorem C6_Add_s_frame:
  assumes "run_s cs (NewSegmentCache c cb, w0) = Some (sl, w)"
  shows "(\<forall>e. cache_s sl k = Some e \<longrightarrow>
       k \<in> set (q_s sl) \<and>
       Add_s k d sz sl w =
         Some (sl\<lparr>q_s := k # remove1 k (q_s sl),
                  cache_s := (cache_s sl)(k \<mapsto> e\<lparr>data_s := d\<rparr>)\<rparr>, w)) \<and>
    (cache_s sl k = None \<longrightarrow>
       Add_s k d sz sl w =
         evict_s (sl\<lparr>q_s := k # q_s sl, usedCapacity := usedCapacity sl + sz,
                     cache_s := (cache_s sl)(k \<mapsto> \<lparr>size_s = sz, data_s = d, position_s = Some k\<rparr>)\<rparr>) w)"
proof -
  have j: "seg_inv sl" using run_s_reachable[OF assms] by simp
  have 1: "\<forall>e. cache_s sl k = Some e \<longrightarrow>
       k \<in> set (q_s sl) \<and>
       Add_s k d sz sl w =
         Some (sl\<lparr>q_s := k # remove1 k (q_s sl),
                  cache_s := (cache_s sl)(k \<mapsto> e\<lparr>data_s := d\<rparr>)\<rparr>, w)"
    using Add_s_present[OF j, of k _ d sz w] j by (auto simp: seg_inv_def)
  have 2: "cache_s sl k = None \<longrightarrow>
       Add_s k d sz sl w =
         evict_s (sl\<lparr>q_s := k # q_s sl, usedCapacity := usedCapacity sl + sz,
                     cache_s := (cache_s sl)(k \<mapsto> \<lparr>size_s = sz, data_s = d, position_s = Some k\<rparr>)\<rparr>) w"
    by (simp add: Add_s_absent PushFront_def)
  from 1 2 show ?thesis by blast
qed

theorem C6_Add_s_frame_witness:
  "\<exists>sl. run_s [SAdd ''1'' (Some (1::nat)) 1, SAdd ''2'' (Some 2) 1] (NewSegmentCache 3 None, ()) = Some (sl, ()) \<and>
     cache_s sl ''1'' = Some \<lparr>size_s = 1, data_s = Some 1, position_s = Some ''1''\<rparr> \<and>
     Add_s ''1'' (Some 7) 2 sl () =
       Some (sl\<lparr>q_s := [''1'', ''2''],
                cache_s := (cache_s sl)(''1'' \<mapsto> \<lparr>size_s = 1, data_s = Some 7, position_s = Some ''1''\<rparr>)\<rparr>, ()) \<and>
     cache_s sl ''3'' = None \<and>
     Add_s ''3'' (Some 3) 1 sl () =
       evict_s (sl\<lparr>q_s := [''3'', ''2'', ''1''], usedCapacity := 3,
                   cache_s := (cache_s sl)(''3'' \<mapsto> \<lparr>size_s = 1, data_s = Some 3, position_s = Some ''3''\<rparr>)\<rparr>) ()"
proof -
  let ?S = "\<lparr>capacity = 3, usedCapacity = 2,
      cache_s = [''1'' \<mapsto> \<lparr>size_s = 1, data_s = Some (1::nat), position_s = Some ''1''\<rparr>,
                 ''2'' \<mapsto> \<lparr>size_s = 1, data_s = Some 2, position_s = Some ''2''\<rparr>],
      q_s = [''2'', ''1''], evictedCallback_s = None :: (string \<Rightarrow> unit \<Rightarrow> unit) option\<rparr>"
  have r: "run_s [SAdd ''1'' (Some (1::nat)) 1, SAdd ''2'' (Some 2) 1] (NewSegmentCache 3 None, ())
              = Some (?S, ())"
    by (simp add: NewSegmentCache_def Add_s_def evict_s.simps PushFront_def word_sless_alt)
  show ?thesis
    apply (rule exI[of _ ?S])
    using r C6_Add_s_frame [OF r, of "''1''" "Some 7" 2] C6_Add_s_frame [OF r, of "''3''" "Some 3" 1]
    apply simp
    done
qed

subsection \<open>Termination and the callback\<close>

lemma evict_s_iters_le: "evict_s_iters lru \<le> length (q_s lru)"
proof (induction lru rule: evict_s_iters.induct)
  case (1 lru)
  show ?case
  proof (cases "capacity lru <s usedCapacity lru")
    case False
    then show ?thesis by (simp add: evict_s_iters.simps)
  next
    case True
    show ?thesis
    proof (cases "Back (q_s lru)")
      case None
      then show ?thesis using True by (simp add: evict_s_iters.simps)
    next
      case (Some x)
      note b = Some
      show ?thesis
      proof (cases "cache_s lru x")
        case None
        then show ?thesis using True b by (simp add: evict_s_iters.simps)
      next
        case (Some e)
        have q: "q_s lru = butlast (q_s lru) @ [x]" using b by (rule Back_Some)
        have "length (q_s lru) = Suc (length (butlast (q_s lru)))" by (subst q) simp
        then show ?thesis
          using "1.IH"[OF True b Some] True b Some by (subst evict_s_iters.simps) simp
      qed
    qed
  qed
qed

lemma evict_s_iters_length:
  assumes "evict_s lru w = Some (lru', w')"
  shows "length (q_s lru) = length (q_s lru') + evict_s_iters lru"
  using assms
proof (induction lru w rule: evict_s.induct)
  case (1 lru w)
  show ?case
  proof (cases "capacity lru <s usedCapacity lru")
    case False
    then show ?thesis using "1.prems"
      by (subst evict_s_iters.simps, subst (asm) evict_s.simps) simp
  next
    case True
    from "1.prems" True obtain x e where b: "Back (q_s lru) = Some x" and e: "cache_s lru x = Some e"
      by (subst (asm) evict_s.simps) (auto split: option.splits)
    let ?n = "lru\<lparr>q_s := butlast (q_s lru), usedCapacity := usedCapacity lru - size_s e,
                     cache_s := (cache_s lru)(x := None)\<rparr>"
    let ?v = "case evictedCallback_s lru of None \<Rightarrow> w | Some cb \<Rightarrow> cb x w"
    have r: "evict_s ?n ?v = Some (lru', w')"
      using "1.prems" True b e by (subst (asm) evict_s.simps) simp
    have q: "q_s lru = butlast (q_s lru) @ [x]" using b by (rule Back_Some)
    have l: "length (q_s lru) = Suc (length (butlast (q_s lru)))" by (subst q) simp
    have i: "evict_s_iters lru = Suc (evict_s_iters ?n)"
      using True b e by (subst evict_s_iters.simps) simp
    have ih: "length (butlast (q_s lru)) = length (q_s lru') + evict_s_iters ?n"
      using "1.IH"[OF True b e r] by simp
    show ?thesis using ih l i by linarith
  qed
qed

lemma seg_nonempty:
  assumes "seg_inv lru" "0 \<le>s capacity lru" "capacity lru <s usedCapacity lru"
  shows "q_s lru \<noteq> []"
proof
  assume "q_s lru = []"
  then have "usedCapacity lru = 0" using assms(1) by (simp add: seg_inv_def)
  then show False using assms(2,3) by (simp add: word_sless_alt word_sle_eq)
qed

text \<open>
  What terminates. With a capacity that is not negative, every sequence of public calls
  on a new weighted cache returns (its methods release the mutex on every path); the
  loop of eviction returns without removing from an empty queue, and its body runs as
  many times as entries leave the queue, which is at most the length of the queue.
  Every sequence of public calls on a new cache with pinned members returns, whatever
  its size, in the copy without the mutex: its calls have no loop.
\<close>

theorem returns_without_mutex:
  assumes "0 \<le>s c"
  shows "(\<exists>sl w. run_s cs (NewSegmentCache c cb, w0) = Some (sl, w) \<and>
            (capacity sl <s usedCapacity sl \<longrightarrow> q_s sl \<noteq> []) \<and>
            (cache_s sl k = None \<longrightarrow>
               (capacity (pushed_s k d sz sl) <s usedCapacity (pushed_s k d sz sl) \<longrightarrow>
                  q_s (pushed_s k d sz sl) \<noteq> []) \<and>
               (\<exists>sl' w'. Add_s k d sz sl w = Some (sl', w') \<and>
                  evict_s (pushed_s k d sz sl) w = Some (sl', w') \<and>
                  length (q_s (pushed_s k d sz sl)) = length (q_s sl') + evict_s_iters (pushed_s k d sz sl)) \<and>
               evict_s_iters (pushed_s k d sz sl) \<le> length (q_s (pushed_s k d sz sl)))) \<and>
         (\<exists>lru w. run cs' (NewCache n cb', w0') = Some (lru, w))"
proof -
  have i0: "seg_inv (NewSegmentCache c cb)" by (rule NewSegmentCache_inv)
  have c0: "0 \<le>s capacity (NewSegmentCache c cb)" using assms by (simp add: NewSegmentCache_def)
  obtain sl w where r: "run_s cs (NewSegmentCache c cb, w0) = Some (sl, w)"
    using run_s_total[OF i0 c0, of cs w0] by blast
  have i: "seg_inv sl" and cap: "capacity sl = c" using run_s_reachable[OF r] by simp_all
  have c1: "0 \<le>s capacity sl" using assms cap by simp
  have 1: "capacity sl <s usedCapacity sl \<longrightarrow> q_s sl \<noteq> []"
    using seg_nonempty[OF i c1] by blast
  have 2: "cache_s sl k = None \<longrightarrow>
               (capacity (pushed_s k d sz sl) <s usedCapacity (pushed_s k d sz sl) \<longrightarrow>
                  q_s (pushed_s k d sz sl) \<noteq> []) \<and>
               (\<exists>sl' w'. Add_s k d sz sl w = Some (sl', w') \<and>
                  evict_s (pushed_s k d sz sl) w = Some (sl', w') \<and>
                  length (q_s (pushed_s k d sz sl)) = length (q_s sl') + evict_s_iters (pushed_s k d sz sl)) \<and>
               evict_s_iters (pushed_s k d sz sl) \<le> length (q_s (pushed_s k d sz sl))"
  proof
    assume n: "cache_s sl k = None"
    have ip: "seg_inv (pushed_s k d sz sl)" using seg_inv_push[OF i n] .
    have cp: "0 \<le>s capacity (pushed_s k d sz sl)" using c1 by simp
    obtain sl' w' where e: "evict_s (pushed_s k d sz sl) w = Some (sl', w')"
      using evict_s_total[OF ip cp, of w] by blast
    have a: "Add_s k d sz sl w = Some (sl', w')" using e n by (simp add: Add_s_absent)
    have "q_s (pushed_s k d sz sl) \<noteq> []" by (simp add: PushFront_def)
    then show "(capacity (pushed_s k d sz sl) <s usedCapacity (pushed_s k d sz sl) \<longrightarrow>
                  q_s (pushed_s k d sz sl) \<noteq> []) \<and>
               (\<exists>sl' w'. Add_s k d sz sl w = Some (sl', w') \<and>
                  evict_s (pushed_s k d sz sl) w = Some (sl', w') \<and>
                  length (q_s (pushed_s k d sz sl)) = length (q_s sl') + evict_s_iters (pushed_s k d sz sl)) \<and>
               evict_s_iters (pushed_s k d sz sl) \<le> length (q_s (pushed_s k d sz sl))"
      using a e evict_s_iters_length[OF e] evict_s_iters_le[of "pushed_s k d sz sl"] by blast
  qed
  have 3: "\<exists>lru w. run cs' (NewCache n cb', w0') = Some (lru, w)"
    using run_inv[OF NewCache_inv, of cs' n cb' w0'] by blast
  show ?thesis
    apply (rule conjI)
     apply (rule exI[of _ sl], rule exI[of _ w])
     apply (rule conjI[OF r])
     apply (rule conjI[OF 1])
     apply (rule 2)
    apply (rule 3)
    done
qed

theorem returns_without_mutex_witness:
  "(0::int64) \<le>s 3 \<and>
   ((\<exists>sl w. run_s [SAdd ''1'' (Some (1::nat)) 1, SAdd ''2'' (Some 2) 5] (NewSegmentCache 3 None, ()) = Some (sl, w) \<and>
            (capacity sl <s usedCapacity sl \<longrightarrow> q_s sl \<noteq> []) \<and>
            (cache_s sl ''3'' = None \<longrightarrow>
               (capacity (pushed_s ''3'' None 7 sl) <s usedCapacity (pushed_s ''3'' None 7 sl) \<longrightarrow>
                  q_s (pushed_s ''3'' None 7 sl) \<noteq> []) \<and>
               (\<exists>sl' w'. Add_s ''3'' None 7 sl w = Some (sl', w') \<and>
                  evict_s (pushed_s ''3'' None 7 sl) w = Some (sl', w') \<and>
                  length (q_s (pushed_s ''3'' None 7 sl)) = length (q_s sl') + evict_s_iters (pushed_s ''3'' None 7 sl)) \<and>
               evict_s_iters (pushed_s ''3'' None 7 sl) \<le> length (q_s (pushed_s ''3'' None 7 sl)))) \<and>
    (\<exists>lru w. run [CAdd ''1'' (Some (1::nat)), CPin ''1'', CUnpin ''1''] (NewCache (- 1) None, ()) = Some (lru, w)))"
proof -
  have h: "(0::int64) \<le>s 3" by (simp add: word_sle_eq)
  from h returns_without_mutex [OF h, where cs = "[SAdd ''1'' (Some (1::nat)) 1, SAdd ''2'' (Some 2) 5]"
      and cb = None and ?w0.0 = "()" and k = "''3''" and d = None and sz = 7
      and cs' = "[CAdd ''1'' (Some (1::nat)), CPin ''1'', CUnpin ''1'']" and n = "- 1"
      and cb' = None and w0' = "()"]
  show ?thesis by (rule conjI)
qed

subsection \<open>The calls of the callback\<close>

lemma cache_inv_pushed:
  assumes "cache_inv lru" "cache lru k = None"
  shows "cache_inv (pushed k d lru)"
proof -
  have "k \<notin> set (q lru)" using assms by (auto simp: cache_inv_def unpinned_keys_def)
  then show ?thesis using assms unfolding cache_inv_def
    by (auto simp: PushFront_def unpinned_keys_def)
qed

lemma cache_inv_unpinned:
  assumes "cache_inv lru" "cache lru k = Some e" "pinned e"
  shows "cache_inv (unpinned k e lru)"
proof -
  have "k \<notin> set (q lru)" using assms by (auto simp: cache_inv_def unpinned_keys_def)
  then show ?thesis using assms unfolding cache_inv_def
    by (auto simp: PushFront_def unpinned_keys_def)
qed

lemma evict_effect:
  assumes "evict lru w = Some (lru', w')"
  shows "\<exists>ks. q lru = q lru' @ rev ks \<and> w' = calls (evictedCallback lru) ks w \<and>
           cache lru' = (\<lambda>k. if k \<in> set ks then None else cache lru k) \<and> length ks \<le> 1"
proof (cases "size_c lru < int (length (q lru))")
  case False
  then have "lru' = lru" "w' = w" using assms by (simp_all add: evict_def)
  then show ?thesis by (intro exI[of _ "[]"]) (simp add: calls_Nil)
next
  case True
  from assms True obtain x where b: "Back (q lru) = Some x"
    by (auto simp: evict_def split: option.splits)
  have q: "q lru = butlast (q lru) @ [x]" using b by (rule Back_Some)
  have l: "lru' = lru\<lparr>q := butlast (q lru), cache := (cache lru)(x := None)\<rparr>"
    and v: "w' = (case evictedCallback lru of None \<Rightarrow> w | Some cb \<Rightarrow> cb x w)"
    using assms True b by (simp_all add: evict_def)
  have 1: "q lru = q lru' @ rev [x]" using q l by simp
  have 2: "w' = calls (evictedCallback lru) [x] w" using v by (simp add: calls_def split: option.splits)
  have 3: "cache lru' = (\<lambda>k. if k \<in> set [x] then None else cache lru k)" using l by auto
  show ?thesis using 1 2 3 by (intro exI[of _ "[x]"]) simp
qed

lemma evicted_keys:
  assumes "distinct Q" "Q = q' @ rev ks" "set Q \<subseteq> dom m"
    and "m' = (\<lambda>k. if k \<in> set ks then None else m k)"
  shows "distinct ks \<and> set ks = dom m - dom m'"
proof -
  have "distinct ks" using assms(1,2) by simp
  moreover have "set ks \<subseteq> dom m" using assms(2,3) by auto
  ultimately show ?thesis using assms(4) by (auto simp: dom_def)
qed

lemma Add_trace:
  assumes "cache_inv lru" "Add k d lru w = Some (lru', w')"
  shows "\<exists>ks. w' = calls (evictedCallback lru) ks w \<and> distinct ks \<and>
           set ks = insert k (dom (cache lru)) - dom (cache lru') \<and>
           (if cache lru k = None then k # q lru = q lru' @ rev ks else ks = [])"
proof (cases "cache lru k")
  case None
  have e: "evict (pushed k d lru) w = Some (lru', w')" using assms(2) None by (simp add: Add_def)
  have i: "cache_inv (pushed k d lru)" using cache_inv_pushed[OF assms(1) None] .
  from evict_effect[OF e] obtain ks where ks: "q (pushed k d lru) = q lru' @ rev ks"
      "w' = calls (evictedCallback (pushed k d lru)) ks w"
      "cache lru' = (\<lambda>x. if x \<in> set ks then None else cache (pushed k d lru) x)" by blast
  have d: "distinct (q (pushed k d lru))" "set (q (pushed k d lru)) \<subseteq> dom (cache (pushed k d lru))"
    using i by (auto simp: cache_inv_def unpinned_keys_def)
  have dm: "dom (cache (pushed k d lru)) = insert k (dom (cache lru))" by auto
  from evicted_keys[OF d(1) ks(1) d(2) ks(3)]
  have "distinct ks" "set ks = insert k (dom (cache lru)) - dom (cache lru')" unfolding dm by simp_all
  then show ?thesis using ks(1,2) None by (intro exI[of _ ks]) (simp add: PushFront_def)
next
  case (Some e)
  have "w' = w" "dom (cache lru') = dom (cache lru)"
    using assms(2) Some by (auto simp: Add_def split: if_splits option.splits)
  then show ?thesis using Some by (intro exI[of _ "[]"]) (auto simp: calls_Nil)
qed

lemma Unpin_trace:
  assumes "cache_inv lru" "Unpin k lru w = Some (lru', w')"
  shows "\<exists>ks. w' = calls (evictedCallback lru) ks w \<and> distinct ks \<and>
           set ks = dom (cache lru) - dom (cache lru') \<and>
           (if k \<in> pinned_keys lru then k # q lru = q lru' @ rev ks else ks = [])"
proof (cases "k \<in> pinned_keys lru")
  case True
  then obtain e where s: "cache lru k = Some e" "pinned e" by (auto simp: pinned_keys_def)
  have e: "evict (unpinned k e lru) w = Some (lru', w')" using assms(2) s by (simp add: Unpin_def)
  have i: "cache_inv (unpinned k e lru)" using cache_inv_unpinned[OF assms(1) s] .
  from evict_effect[OF e] obtain ks where ks: "q (unpinned k e lru) = q lru' @ rev ks"
      "w' = calls (evictedCallback (unpinned k e lru)) ks w"
      "cache lru' = (\<lambda>x. if x \<in> set ks then None else cache (unpinned k e lru) x)" by blast
  have d: "distinct (q (unpinned k e lru))" "set (q (unpinned k e lru)) \<subseteq> dom (cache (unpinned k e lru))"
    using i by (auto simp: cache_inv_def unpinned_keys_def)
  have dm: "dom (cache (unpinned k e lru)) = dom (cache lru)" using s by auto
  from evicted_keys[OF d(1) ks(1) d(2) ks(3)]
  have "distinct ks" "set ks = dom (cache lru) - dom (cache lru')" unfolding dm by simp_all
  then show ?thesis using ks(1,2) True by (intro exI[of _ ks]) (simp add: PushFront_def)
next
  case False
  then have "w' = w" "lru' = lru"
    using assms(2) by (auto simp: Unpin_def pinned_keys_def split: if_splits option.splits)
  then show ?thesis using False by (intro exI[of _ "[]"]) (auto simp: calls_Nil)
qed

lemma Add_s_trace:
  assumes "seg_inv lru" "Add_s k d sz lru w = Some (lru', w')"
  shows "\<exists>ks. w' = calls (evictedCallback_s lru) ks w \<and> distinct ks \<and>
           set ks = insert k (dom (cache_s lru)) - dom (cache_s lru') \<and>
           (if cache_s lru k = None then k # q_s lru = q_s lru' @ rev ks else ks = [])"
proof (cases "cache_s lru k")
  case None
  have e: "evict_s (pushed_s k d sz lru) w = Some (lru', w')"
    using assms(2) None by (simp add: Add_s_absent)
  have i: "seg_inv (pushed_s k d sz lru)" using seg_inv_push[OF assms(1) None] .
  from evict_s_effect[OF i e] obtain ks where ks: "q_s (pushed_s k d sz lru) = q_s lru' @ rev ks"
      "w' = calls (evictedCallback_s (pushed_s k d sz lru)) ks w"
      "cache_s lru' = (\<lambda>x. if x \<in> set ks then None else cache_s (pushed_s k d sz lru) x)" by blast
  have d: "distinct (q_s (pushed_s k d sz lru))"
      "set (q_s (pushed_s k d sz lru)) \<subseteq> dom (cache_s (pushed_s k d sz lru))"
    using i by (auto simp: seg_inv_def)
  have dm: "dom (cache_s (pushed_s k d sz lru)) = insert k (dom (cache_s lru))" by auto
  from evicted_keys[OF d(1) ks(1) d(2) ks(3)]
  have "distinct ks" "set ks = insert k (dom (cache_s lru)) - dom (cache_s lru')" unfolding dm by simp_all
  then show ?thesis using ks(1,2) None by (intro exI[of _ ks]) (simp add: PushFront_def)
next
  case (Some e)
  have "w' = w" "dom (cache_s lru') = dom (cache_s lru)"
    using assms Some by (auto simp: Add_s_present split: if_splits)
  then show ?thesis using Some by (intro exI[of _ "[]"]) (auto simp: calls_Nil)
qed

text \<open>
  Claim C5. In a state reached by public calls, \<open>Add\<close> and \<open>Unpin\<close> return the world
  in which the callback has been applied to a list of keys, once for each key and in
  the order of the list (the world is unchanged when the callback is nil). The keys of
  the list are distinct and are exactly the keys that the call removed from the index,
  and the list read backwards is the end of the queue in which the eviction started:
  the first key of the list was the back of the queue, the least recently used. The
  calls are part of the result of \<open>Add\<close> or \<open>Unpin\<close>, so they are made before it
  returns. When the key of \<open>Add\<close> is in the index, or the key of \<open>Unpin\<close> is not
  pinned, the list is empty.
\<close>

theorem C5_callback_order:
  assumes "run cs (NewCache n cb, w0) = Some (lru, w)"
    and "run_s cs' (NewSegmentCache c cb', w0') = Some (sl, v)"
  shows "(\<exists>lru' w' ks. Add k d lru w = Some (lru', w') \<and> w' = calls cb ks w \<and> distinct ks \<and>
            set ks = insert k (dom (cache lru)) - dom (cache lru') \<and>
            (if cache lru k = None then k # q lru = q lru' @ rev ks else ks = [])) \<and>
         (\<exists>lru' w' ks. Unpin k lru w = Some (lru', w') \<and> w' = calls cb ks w \<and> distinct ks \<and>
            set ks = dom (cache lru) - dom (cache lru') \<and>
            (if k \<in> pinned_keys lru then k # q lru = q lru' @ rev ks else ks = [])) \<and>
         (\<forall>sl' v'. Add_s k' d' sz sl v = Some (sl', v') \<longrightarrow>
            (\<exists>ks. v' = calls cb' ks v \<and> distinct ks \<and>
               set ks = insert k' (dom (cache_s sl)) - dom (cache_s sl') \<and>
               (if cache_s sl k' = None then k' # q_s sl = q_s sl' @ rev ks else ks = []))) \<and>
         (0 \<le>s c \<longrightarrow> (\<exists>sl' v'. Add_s k' d' sz sl v = Some (sl', v')))"
proof -
  have i: "cache_inv lru" and cb: "evictedCallback lru = cb"
    using run_reachable[OF assms(1)] by simp_all
  have j: "seg_inv sl" and cb': "evictedCallback_s sl = cb'" and cap: "capacity sl = c"
    using run_s_reachable[OF assms(2)] by simp_all
  obtain l1 w1 where a: "Add k d lru w = Some (l1, w1)" using Add_inv[OF i, of k d w] by blast
  obtain l2 w2 where u: "Unpin k lru w = Some (l2, w2)" using Unpin_inv[OF i, of k w] by blast
  have 1: "\<exists>lru' w' ks. Add k d lru w = Some (lru', w') \<and> w' = calls cb ks w \<and> distinct ks \<and>
            set ks = insert k (dom (cache lru)) - dom (cache lru') \<and>
            (if cache lru k = None then k # q lru = q lru' @ rev ks else ks = [])"
    using Add_trace[OF i a] a unfolding cb by blast
  have 2: "\<exists>lru' w' ks. Unpin k lru w = Some (lru', w') \<and> w' = calls cb ks w \<and> distinct ks \<and>
            set ks = dom (cache lru) - dom (cache lru') \<and>
            (if k \<in> pinned_keys lru then k # q lru = q lru' @ rev ks else ks = [])"
    using Unpin_trace[OF i u] u unfolding cb by blast
  have 3: "\<forall>sl' v'. Add_s k' d' sz sl v = Some (sl', v') \<longrightarrow>
            (\<exists>ks. v' = calls cb' ks v \<and> distinct ks \<and>
               set ks = insert k' (dom (cache_s sl)) - dom (cache_s sl') \<and>
               (if cache_s sl k' = None then k' # q_s sl = q_s sl' @ rev ks else ks = []))"
    using Add_s_trace[OF j] unfolding cb' by blast
  have 4: "0 \<le>s c \<longrightarrow> (\<exists>sl' v'. Add_s k' d' sz sl v = Some (sl', v'))"
    using exec_s_total[OF j, of "SAdd k' d' sz" v] cap by simp
  show ?thesis by (rule conjI[OF 1 conjI[OF 2 conjI[OF 3 4]]])
qed

theorem C5_callback_order_witness:
  "\<exists>lru w sl v.
     run [CAdd ''1'' (Some (1::nat)), CAdd ''2'' (Some 2), CPin ''2'', CAdd ''3'' (Some 3)]
       (NewCache 1 (Some (\<lambda>k l. l @ [k])), []) = Some (lru, w) \<and>
     run_s [SAdd ''1'' (Some (1::nat)) 1, SAdd ''2'' (Some 2) 1, SAdd ''3'' (Some 3) 1]
       (NewSegmentCache 3 (Some (\<lambda>k l. l @ [k])), []) = Some (sl, v) \<and>
     w = [''1''] \<and> v = [] \<and> q lru = [''3''] \<and> q_s sl = [''3'', ''2'', ''1''] \<and>
     (\<exists>lru'. Add ''4'' None lru w = Some (lru', calls (Some (\<lambda>k l. l @ [k])) [''3''] w)) \<and>
     (\<exists>lru'. Unpin ''2'' lru w = Some (lru', w @ [''3''])) \<and>
     (\<exists>sl'. Add_s ''4'' None 2 sl v = Some (sl', [''1'', ''2'']))"
proof -
  let ?L = "\<lparr>size_c = 1,
      cache = [''2'' \<mapsto> \<lparr>data = Some (2::nat), pinned = True, position = None\<rparr>,
               ''3'' \<mapsto> \<lparr>data = Some 3, pinned = False, position = Some ''3''\<rparr>],
      q = [''3''], evictedCallback = Some (\<lambda>k l. l @ [k])\<rparr>"
  let ?S = "\<lparr>capacity = 3, usedCapacity = 3,
      cache_s = [''1'' \<mapsto> \<lparr>size_s = 1, data_s = Some (1::nat), position_s = Some ''1''\<rparr>,
                 ''2'' \<mapsto> \<lparr>size_s = 1, data_s = Some 2, position_s = Some ''2''\<rparr>,
                 ''3'' \<mapsto> \<lparr>size_s = 1, data_s = Some 3, position_s = Some ''3''\<rparr>],
      q_s = [''3'', ''2'', ''1''], evictedCallback_s = Some (\<lambda>k l. l @ [k])\<rparr>"
  have r1: "run [CAdd ''1'' (Some (1::nat)), CAdd ''2'' (Some 2), CPin ''2'', CAdd ''3'' (Some 3)]
       (NewCache 1 (Some (\<lambda>k l. l @ [k])), []) = Some (?L, [''1''])"
    by (simp add: NewCache_def Add_def evict_def PushFront_def Pin_def Remove_def Back_def)
  have r2: "run_s [SAdd ''1'' (Some (1::nat)) 1, SAdd ''2'' (Some 2) 1, SAdd ''3'' (Some 3) 1]
       (NewSegmentCache 3 (Some (\<lambda>k l. l @ [k])), []) = Some (?S, [])"
    by (simp add: NewSegmentCache_def Add_s_def evict_s.simps PushFront_def word_sless_alt)
  have a: "\<exists>lru'. Add ''4'' None ?L [''1''] = Some (lru', calls (Some (\<lambda>k l. l @ [k])) [''3''] [''1''])"
    using C5_callback_order [OF r1 r2, where k = "''4''" and d = None]
    by (simp add: Add_def evict_def PushFront_def Back_def calls_def)
  have b: "\<exists>lru'. Unpin ''2'' ?L [''1''] = Some (lru', [''1''] @ [''3''])"
    using C5_callback_order [OF r1 r2, where k = "''2''"]
    by (simp add: Unpin_def evict_def PushFront_def Back_def)
  have c: "\<exists>sl'. Add_s ''4'' None 2 ?S [] = Some (sl', [''1'', ''2''])"
    using C5_callback_order [OF r1 r2, where k' = "''4''" and d' = None and sz = 2]
    by (simp add: Add_s_def evict_s.simps PushFront_def Back_def word_sless_alt)
  show ?thesis
    apply (rule exI[of _ ?L], rule exI[of _ "[''1'']"], rule exI[of _ ?S], rule exI[of _ "[]"])
    using r1 r2 a b c apply simp
    done
qed

subsection \<open>Add followed by Get\<close>

lemma evict_s_keeps_head:
  assumes "seg_inv lru" "q_s lru = k # r" "weight (cache_s lru) k \<le>s capacity lru"
  shows "\<exists>lru' w' r'. evict_s lru w = Some (lru', w') \<and> q_s lru' = k # r' \<and>
           cache_s lru' k = cache_s lru k \<and> seg_inv lru'"
  using assms
proof (induction lru w arbitrary: r rule: evict_s.induct)
  case (1 lru w)
  show ?case
  proof (cases "capacity lru <s usedCapacity lru")
    case False
    then show ?thesis using "1.prems" by (subst evict_s.simps) simp
  next
    case True
    obtain xs x where q: "q_s lru = xs @ [x]" using "1.prems"(2) by (metis rev_exhaust list.distinct(1))
    have ne: "xs \<noteq> []"
    proof
      assume "xs = []"
      then have "q_s lru = [k]" using q "1.prems"(2) by simp
      then have "usedCapacity lru = weight (cache_s lru) k"
        using "1.prems"(1) by (simp add: seg_inv_def)
      then show False using True "1.prems"(3) by (simp add: word_sless_alt word_sle_eq)
    qed
    then obtain r2 where xs: "xs = k # r2" using q "1.prems"(2) by (cases xs) auto
    have kx: "k \<noteq> x" using "1.prems"(1) q xs by (auto simp: seg_inv_def)
    have "x \<in> dom (cache_s lru)" using "1.prems"(1) q by (auto simp: seg_inv_def)
    then obtain e where e: "cache_s lru x = Some e" by blast
    let ?n = "lru\<lparr>q_s := butlast (q_s lru), usedCapacity := usedCapacity lru - size_s e,
                     cache_s := (cache_s lru)(x := None)\<rparr>"
    let ?v = "case evictedCallback_s lru of None \<Rightarrow> w | Some cb \<Rightarrow> cb x w"
    have b: "Back (q_s lru) = Some x" using q by (simp add: Back_snoc)
    have i: "seg_inv ?n" using seg_inv_step[OF "1.prems"(1) q e] q by simp
    have qn: "q_s ?n = k # r2" using q xs by simp
    have wn: "weight (cache_s ?n) k \<le>s capacity ?n"
      using "1.prems"(3) kx by (simp add: weight_def)
    from "1.IH"[OF True b e i qn wn] obtain lru' w' r' where
      r: "evict_s ?n ?v = Some (lru', w')" "q_s lru' = k # r'" "cache_s lru' k = cache_s ?n k"
         "seg_inv lru'" by blast
    have "evict_s lru w = Some (lru', w')"
      using r(1) True b e by (subst evict_s.simps) simp
    moreover have "cache_s lru' k = cache_s lru k" using r(3) kx by simp
    ultimately show ?thesis using r(2,4) by blast
  qed
qed

lemma Add_s_Get_s:
  assumes "seg_inv lru" "sz \<le>s capacity lru \<or> k \<in> dom (cache_s lru)"
  shows "\<exists>l2 w2 l3. Add_s k d sz lru w = Some (l2, w2) \<and> Get_s k l2 = Some ((d, True), l3)"
proof (cases "cache_s lru k")
  case None
  have i: "seg_inv (pushed_s k d sz lru)" using seg_inv_push[OF assms(1) None] .
  have h: "q_s (pushed_s k d sz lru) = k # q_s lru" by (simp add: PushFront_def)
  have wk: "weight (cache_s (pushed_s k d sz lru)) k \<le>s capacity (pushed_s k d sz lru)"
    using assms(2) None by (auto simp: weight_def)
  from evict_s_keeps_head[OF i h wk, of w] obtain l2 w2 where
    r: "evict_s (pushed_s k d sz lru) w = Some (l2, w2)"
       "cache_s l2 k = cache_s (pushed_s k d sz lru) k" "seg_inv l2" by blast
  have c: "cache_s l2 k = Some \<lparr>size_s = sz, data_s = d, position_s = Some k\<rparr>"
    using r(2) by simp
  have "Add_s k d sz lru w = Some (l2, w2)" using r(1) None by (simp add: Add_s_absent)
  then show ?thesis using Get_s_present[OF r(3) c] by auto
next
  case (Some e)
  let ?l2 = "lru\<lparr>q_s := k # remove1 k (q_s lru), cache_s := (cache_s lru)(k \<mapsto> e\<lparr>data_s := d\<rparr>)\<rparr>"
  have kq: "k \<in> set (q_s lru)" using assms(1) Some by (auto simp: seg_inv_def)
  have i: "seg_inv ?l2"
    using seg_inv_data[OF seg_inv_move[OF assms(1) kq], of k e d] Some by simp
  have c: "cache_s ?l2 k = Some (e\<lparr>data_s := d\<rparr>)" by simp
  have "Add_s k d sz lru w = Some (?l2, w)" using Add_s_present[OF assms(1) Some] .
  then show ?thesis using Get_s_present[OF i c] by auto
qed

lemma Add_Get:
  assumes "cache_inv lru" "1 \<le> size_c lru \<or> k \<in> dom (cache lru)"
  shows "\<exists>l2 w2 l3. Add k d lru w = Some (l2, w2) \<and> Get k l2 = Some ((d, True), l3)"
proof -
  obtain l2 w2 where a: "Add k d lru w = Some (l2, w2)" and i: "cache_inv l2"
    using Add_inv[OF assms(1), of k d w] by blast
  have "\<exists>e. cache l2 k = Some e \<and> data e = d"
  proof (cases "cache lru k")
    case (Some e)
    then show ?thesis using a by (auto simp: Add_def split: if_splits option.splits)
  next
    case None
    then have n: "1 \<le> size_c lru" using assms(2) by auto
    have e: "evict (pushed k d lru) w = Some (l2, w2)" using a None by (simp add: Add_def)
    have kq: "k \<notin> set (q lru)" using assms(1) None by (auto simp: cache_inv_def unpinned_keys_def)
    show ?thesis
    proof (cases "size_c lru < int (length (q (pushed k d lru)))")
      case False
      then show ?thesis using e by (auto simp: evict_def)
    next
      case True
      then have "q lru \<noteq> []" using n by (auto simp: PushFront_def)
      then have "last (k # q lru) \<noteq> k" using kq by (metis last_ConsR last_in_set)
      then show ?thesis using e True by (auto simp: evict_def Back_def PushFront_def)
    qed
  qed
  then obtain e where c: "cache l2 k = Some e" "data e = d" by blast
  show ?thesis
  proof (cases "pinned e")
    case True
    then show ?thesis using a Get_pinned[OF c(1)] c(2) by auto
  next
    case False
    then show ?thesis using a Get_unpinned[OF i c(1)] c(2) by auto
  qed
qed

text \<open>
  Claim C4, as stated, fails in the weighted cache: with the positive capacity 3, \<open>Add\<close>
  of a new key with weight 5 evicts the key itself, and the \<open>Get\<close> that follows does
  not find it.
\<close>

theorem C4_roundtrip_counterexample:
  "(0::int64) <s 3 \<and>
   Add_s ''a'' (Some (1::nat)) 5 (NewSegmentCache 3 None) () = Some (NewSegmentCache 3 None, ()) \<and>
   Get_s ''a'' (NewSegmentCache 3 None :: (nat, unit) SegmentCache)
     = Some ((None, False), NewSegmentCache 3 None)"
  by (simp add: NewSegmentCache_def Add_s_def Get_s_def evict_s.simps PushFront_def Back_def
      word_sless_alt)

text \<open>
  Claim C4, amended. In a state reached by public calls, \<open>Add\<close> of a key and a value
  followed by \<open>Get\<close> of the key returns the value and \<open>true\<close>: in the cache with
  pinned members when the size is at least 1 or the key was in the index, in the
  weighted cache when the weight is at most the capacity or the key was in the index.
  So \<open>Add\<close> evicts its own key only with a size of 0 or less, or with a weight above
  the capacity, which a positive capacity allows.
\<close>

theorem C4_roundtrip_amended:
  assumes "run cs (NewCache n cb, w0) = Some (lru, w)"
    and "run_s cs' (NewSegmentCache c cb', w0') = Some (sl, v)"
  shows "(1 \<le> n \<or> k \<in> dom (cache lru) \<longrightarrow>
            (\<exists>l2 w2 l3. Add k d lru w = Some (l2, w2) \<and> Get k l2 = Some ((d, True), l3))) \<and>
         (sz \<le>s c \<or> k' \<in> dom (cache_s sl) \<longrightarrow>
            (\<exists>s2 v2 s3. Add_s k' d' sz sl v = Some (s2, v2) \<and> Get_s k' s2 = Some ((d', True), s3)))"
proof -
  have i: "cache_inv lru" and n: "size_c lru = n" using run_reachable[OF assms(1)] by simp_all
  have j: "seg_inv sl" and c: "capacity sl = c" using run_s_reachable[OF assms(2)] by simp_all
  have 1: "1 \<le> n \<or> k \<in> dom (cache lru) \<longrightarrow>
            (\<exists>l2 w2 l3. Add k d lru w = Some (l2, w2) \<and> Get k l2 = Some ((d, True), l3))"
    using Add_Get[OF i, of k d w] n by blast
  have 2: "sz \<le>s c \<or> k' \<in> dom (cache_s sl) \<longrightarrow>
            (\<exists>s2 v2 s3. Add_s k' d' sz sl v = Some (s2, v2) \<and> Get_s k' s2 = Some ((d', True), s3))"
    using Add_s_Get_s[OF j, of sz k' d' v] c by blast
  show ?thesis by (rule conjI[OF 1 2])
qed

theorem C4_roundtrip_amended_witness:
  "\<exists>lru sl.
     run [CAdd ''1'' (Some (1::nat))] (NewCache 1 None, ()) = Some (lru, ()) \<and>
     run_s [SAdd ''1'' (Some (1::nat)) 2] (NewSegmentCache 3 None, ()) = Some (sl, ()) \<and>
     (1::int) \<le> 1 \<and> (3::int64) \<le>s 3 \<and>
     (\<exists>l2 w2 l3. Add ''2'' (Some 7) lru () = Some (l2, w2) \<and> Get ''2'' l2 = Some ((Some 7, True), l3)) \<and>
     (\<exists>s2 v2 s3. Add_s ''2'' (Some 7) 3 sl () = Some (s2, v2) \<and> Get_s ''2'' s2 = Some ((Some 7, True), s3))"
proof -
  let ?L = "\<lparr>size_c = 1,
      cache = [''1'' \<mapsto> \<lparr>data = Some (1::nat), pinned = False, position = Some ''1''\<rparr>],
      q = [''1''], evictedCallback = None :: (string \<Rightarrow> unit \<Rightarrow> unit) option\<rparr>"
  let ?S = "\<lparr>capacity = 3, usedCapacity = 2,
      cache_s = [''1'' \<mapsto> \<lparr>size_s = 2, data_s = Some (1::nat), position_s = Some ''1''\<rparr>],
      q_s = [''1''], evictedCallback_s = None :: (string \<Rightarrow> unit \<Rightarrow> unit) option\<rparr>"
  have r1: "run [CAdd ''1'' (Some (1::nat))] (NewCache 1 None, ()) = Some (?L, ())"
    by (simp add: NewCache_def Add_def evict_def PushFront_def)
  have r2: "run_s [SAdd ''1'' (Some (1::nat)) 2] (NewSegmentCache 3 None, ()) = Some (?S, ())"
    by (simp add: NewSegmentCache_def Add_s_def evict_s.simps PushFront_def word_sless_alt)
  have h1: "(1::int) \<le> 1" by simp
  have h2: "(3::int64) \<le>s 3" by (simp add: word_sle_eq)
  have a: "(\<exists>l2 w2 l3. Add ''2'' (Some 7) ?L () = Some (l2, w2) \<and> Get ''2'' l2 = Some ((Some 7, True), l3)) \<and>
     (\<exists>s2 v2 s3. Add_s ''2'' (Some 7) 3 ?S () = Some (s2, v2) \<and> Get_s ''2'' s2 = Some ((Some 7, True), s3))"
    using C4_roundtrip_amended [OF r1 r2, where k = "''2''" and d = "Some 7" and k' = "''2''"
        and d' = "Some 7" and sz = 3] h1 h2
    by blast
  show ?thesis
    apply (rule exI[of _ ?L], rule exI[of _ ?S])
    apply (rule conjI[OF r1 conjI[OF r2 conjI[OF h1 conjI[OF h2 a]]]])
    done
qed

subsection \<open>The eviction of the cache with pinned members is one step\<close>

lemma evict_spec_loop_done:
  "\<not> size_c l < int (length (q l)) \<Longrightarrow> evict_spec_loop l w = Some (l, w)"
  by (subst evict_spec_loop.simps) simp

lemma evict_is_loop:
  assumes "int (length (q l)) \<le> size_c l + 1"
  shows "evict l w = evict_spec_loop l w"
proof (cases "size_c l < int (length (q l))")
  case False
  then show ?thesis by (simp add: evict_def evict_spec_loop_done)
next
  case True
  show ?thesis
  proof (cases "Back (q l)")
    case None
    then show ?thesis using True by (subst evict_spec_loop.simps) (simp add: evict_def)
  next
    case (Some x)
    let ?n = "l\<lparr>q := butlast (q l), cache := (cache l)(x := None)\<rparr>"
    let ?v = "case evictedCallback l of None \<Rightarrow> w | Some cb \<Rightarrow> cb x w"
    have "q l \<noteq> []" using Some by (auto simp: Back_def split: if_splits)
    then have "\<not> size_c ?n < int (length (q ?n))" using assms by (cases "q l") auto
    then have "evict_spec_loop ?n ?v = Some (?n, ?v)" by (rule evict_spec_loop_done)
    then have "evict_spec_loop l w = Some (?n, ?v)"
      using True Some by (subst evict_spec_loop.simps) simp
    then show ?thesis using True Some by (simp add: evict_def)
  qed
qed

lemma evict_one:
  assumes "evict l w = Some (l', w')"
  shows "length (q l) \<le> length (q l') + 1"
  using assms by (auto simp: evict_def split: if_splits option.splits)

text \<open>
  Claim C2, as stated, fails: the eviction of the cache with pinned members is not a
  loop. With size 1 and three keys in the queue \<open>evict\<close> removes one key and returns
  with two keys in the queue, where the loop of the specification leaves one. Through
  the public calls the difference shows with a negative size: \<open>Add\<close> on a new cache
  of size \<open>-2\<close> removes the one key of the queue and returns with the queue empty,
  still longer than the size, where the loop would go on and remove from an empty
  queue.
\<close>

theorem C2_evict_loop_counterexample:
  "map_option (q \<circ> fst)
     (evict \<lparr>size_c = 1,
        cache = [''a'' \<mapsto> \<lparr>data = None :: nat option, pinned = False, position = Some ''a''\<rparr>,
                 ''b'' \<mapsto> \<lparr>data = None, pinned = False, position = Some ''b''\<rparr>,
                 ''c'' \<mapsto> \<lparr>data = None, pinned = False, position = Some ''c''\<rparr>],
        q = [''c'', ''b'', ''a''], evictedCallback = None\<rparr> ()) = Some [''c'', ''b''] \<and>
   map_option (q \<circ> fst)
     (evict_spec_loop \<lparr>size_c = 1,
        cache = [''a'' \<mapsto> \<lparr>data = None :: nat option, pinned = False, position = Some ''a''\<rparr>,
                 ''b'' \<mapsto> \<lparr>data = None, pinned = False, position = Some ''b''\<rparr>,
                 ''c'' \<mapsto> \<lparr>data = None, pinned = False, position = Some ''c''\<rparr>],
        q = [''c'', ''b'', ''a''], evictedCallback = None\<rparr> ()) = Some [''c''] \<and>
   Add ''a'' (None :: nat option) (NewCache (- 2) None) () = Some (NewCache (- 2) None, ()) \<and>
   \<not> int (length (q (NewCache (- 2) None :: (nat, unit) Cache))) \<le> - 2 \<and>
   evict_spec_loop (pushed ''a'' (None :: nat option) (NewCache (- 2) None)) () = None"
  by (simp add: evict_def evict_spec_loop.simps Back_def Add_def NewCache_def PushFront_def)

text \<open>
  Claim C2, amended. The eviction runs after \<open>Add\<close> of a new key and after \<open>Unpin\<close>
  of a pinned key, and is one conditional step: when the queue is longer than the
  size, the back entry leaves the queue and the index and the callback is called with
  its key; one entry at most is removed. In a state reached by public calls on a cache
  whose size is not negative, the queue in which the eviction starts is at most one
  longer than the size, so the step does what the loop of the specification does, and
  the queue is no longer than the size when \<open>Add\<close> or \<open>Unpin\<close> returns.
\<close>

theorem C2_evict_step_amended:
  assumes "0 \<le> n" and "run cs (NewCache n cb, w0) = Some (lru, w)"
  shows "(cache lru k = None \<longrightarrow>
            Add k d lru w = evict (pushed k d lru) w \<and>
            int (length (q (pushed k d lru))) \<le> n + 1 \<and>
            evict (pushed k d lru) w = evict_spec_loop (pushed k d lru) w) \<and>
         (\<forall>e. cache lru k = Some e \<and> pinned e \<longrightarrow>
            Unpin k lru w = evict (unpinned k e lru) w \<and>
            int (length (q (unpinned k e lru))) \<le> n + 1 \<and>
            evict (unpinned k e lru) w = evict_spec_loop (unpinned k e lru) w) \<and>
         (\<exists>lru' w'. Add k d lru w = Some (lru', w') \<and> int (length (q lru')) \<le> n) \<and>
         (\<exists>lru' w'. Unpin k lru w = Some (lru', w') \<and> int (length (q lru')) \<le> n) \<and>
         (\<forall>l v l' v'. evict l v = Some (l', v') \<longrightarrow> length (q l) \<le> length (q l') + 1)"
proof -
  have i: "cache_inv lru" and s: "size_c lru = n" and b: "int (length (q lru)) \<le> n"
    using run_reachable[OF assms(2)] assms(1) by simp_all
  have 1: "cache lru k = None \<longrightarrow>
            Add k d lru w = evict (pushed k d lru) w \<and>
            int (length (q (pushed k d lru))) \<le> n + 1 \<and>
            evict (pushed k d lru) w = evict_spec_loop (pushed k d lru) w"
  proof
    assume n: "cache lru k = None"
    have l: "int (length (q (pushed k d lru))) \<le> n + 1" using b by (simp add: PushFront_def)
    then have "int (length (q (pushed k d lru))) \<le> size_c (pushed k d lru) + 1" using s by simp
    then have "evict (pushed k d lru) w = evict_spec_loop (pushed k d lru) w" by (rule evict_is_loop)
    moreover have "Add k d lru w = evict (pushed k d lru) w" using n by (simp add: Add_def)
    ultimately show "Add k d lru w = evict (pushed k d lru) w \<and>
            int (length (q (pushed k d lru))) \<le> n + 1 \<and>
            evict (pushed k d lru) w = evict_spec_loop (pushed k d lru) w" using l by blast
  qed
  have 2: "\<forall>e. cache lru k = Some e \<and> pinned e \<longrightarrow>
            Unpin k lru w = evict (unpinned k e lru) w \<and>
            int (length (q (unpinned k e lru))) \<le> n + 1 \<and>
            evict (unpinned k e lru) w = evict_spec_loop (unpinned k e lru) w"
  proof (intro allI impI)
    fix e assume p: "cache lru k = Some e \<and> pinned e"
    have l: "int (length (q (unpinned k e lru))) \<le> n + 1" using b by (simp add: PushFront_def)
    then have "int (length (q (unpinned k e lru))) \<le> size_c (unpinned k e lru) + 1" using s by simp
    then have "evict (unpinned k e lru) w = evict_spec_loop (unpinned k e lru) w" by (rule evict_is_loop)
    moreover have "Unpin k lru w = evict (unpinned k e lru) w" using p by (simp add: Unpin_def)
    ultimately show "Unpin k lru w = evict (unpinned k e lru) w \<and>
            int (length (q (unpinned k e lru))) \<le> n + 1 \<and>
            evict (unpinned k e lru) w = evict_spec_loop (unpinned k e lru) w" using l by blast
  qed
  have 3: "\<exists>lru' w'. Add k d lru w = Some (lru', w') \<and> int (length (q lru')) \<le> n"
    using Add_inv[OF i, of k d w] b s by auto
  have 4: "\<exists>lru' w'. Unpin k lru w = Some (lru', w') \<and> int (length (q lru')) \<le> n"
    using Unpin_inv[OF i, of k w] b s by auto
  have 5: "\<forall>l v l' v'. evict l v = Some (l', v') \<longrightarrow> length (q l) \<le> length (q l') + 1"
    using evict_one by blast
  show ?thesis by (rule conjI[OF 1 conjI[OF 2 conjI[OF 3 conjI[OF 4 5]]]])
qed

theorem C2_evict_step_amended_witness:
  "\<exists>lru e. (0::int) \<le> 1 \<and>
     run [CAdd ''1'' (Some (1::nat)), CPin ''1'', CAdd ''2'' (Some 2)] (NewCache 1 None, ()) = Some (lru, ()) \<and>
     cache lru ''3'' = None \<and>
     Add ''3'' None lru () = evict_spec_loop (pushed ''3'' None lru) () \<and>
     cache lru ''1'' = Some e \<and> pinned e \<and>
     Unpin ''1'' lru () = evict_spec_loop (unpinned ''1'' e lru) ()"
proof -
  let ?E = "\<lparr>data = Some (1::nat), pinned = True, position = None\<rparr>"
  let ?L = "\<lparr>size_c = 1,
      cache = [''1'' \<mapsto> ?E, ''2'' \<mapsto> \<lparr>data = Some 2, pinned = False, position = Some ''2''\<rparr>],
      q = [''2''], evictedCallback = None :: (string \<Rightarrow> unit \<Rightarrow> unit) option\<rparr>"
  have h: "(0::int) \<le> 1" by simp
  have r: "run [CAdd ''1'' (Some (1::nat)), CPin ''1'', CAdd ''2'' (Some 2)] (NewCache 1 None, ()) = Some (?L, ())"
    by (simp add: NewCache_def Add_def evict_def PushFront_def Pin_def Remove_def)
  have c3: "cache ?L ''3'' = None" by simp
  have c1: "cache ?L ''1'' = Some ?E \<and> pinned ?E" by simp
  have a: "Add ''3'' None ?L () = evict_spec_loop (pushed ''3'' None ?L) ()"
    using C2_evict_step_amended [OF h r, where k = "''3''" and d = None] c3 by metis
  have u: "Unpin ''1'' ?L () = evict_spec_loop (unpinned ''1'' ?E ?L) ()"
    using C2_evict_step_amended [OF h r, where k = "''1''" and d = None] c1 by metis
  show ?thesis
    apply (rule exI[of _ ?L], rule exI[of _ ?E])
    using h r c3 c1 a u apply blast
    done
qed

subsection \<open>The used capacity as a sum of integers\<close>

lemma sint_add_exact:
  fixes a b :: int64
  assumes "- (2 ^ 63) \<le> sint a + sint b" "sint a + sint b < 2 ^ 63"
  shows "sint (a + b) = sint a + sint b"
  using assms by (simp add: sint_word_add signed_take_bit_int_eq_self)

lemma sint_diff_exact:
  fixes a b :: int64
  assumes "- (2 ^ 63) \<le> sint a - sint b" "sint a - sint b < 2 ^ 63"
  shows "sint (a - b) = sint a - sint b"
  using assms by (simp add: sint_word_diff signed_take_bit_int_eq_self)

lemma sint_lt64: "sint (a :: int64) < 2 ^ 63"
  using sint_lt[of a] by simp

lemma sint_map_cong:
  "(\<And>k. k \<in> set l \<Longrightarrow> a k = b k) \<Longrightarrow>
   map (\<lambda>k. sint (weight a k)) l = map (\<lambda>k. sint (weight b k)) l"
  by (simp add: weight_def)

lemma exact_step:
  assumes "seg_inv lru" "exact_inv lru" "q_s lru = xs @ [x]" "cache_s lru x = Some e"
  shows "exact_inv (lru\<lparr>q_s := xs, usedCapacity := usedCapacity lru - size_s e,
                     cache_s := (cache_s lru)(x := None)\<rparr>)"
proof -
  let ?f = "\<lambda>k. sint (weight (cache_s lru) k)"
  let ?g = "\<lambda>k. sint (weight ((cache_s lru)(x := None)) k)"
  have d: "x \<notin> set xs" using assms(1,3) by (auto simp: seg_inv_def)
  have m: "sum_list (map ?g xs) = sum_list (map ?f xs)"
    by (rule arg_cong[of _ _ sum_list], rule sint_map_cong) (use d in auto)
  have wx: "weight (cache_s lru) x = size_s e" using assms(4) by (simp add: weight_def)
  have nn: "\<forall>k \<in> set xs. 0 \<le> ?f k" and nx: "0 \<le> sint (size_s e)"
    using assms(2,3) wx by (auto simp: exact_inv_def)
  have u: "sint (usedCapacity lru) = sum_list (map ?f xs) + sint (size_s e)"
    using assms(2,3) wx by (simp add: exact_inv_def)
  have s0: "0 \<le> sum_list (map ?f xs)" using nn by (intro sum_list_nonneg) auto
  have lt: "sint (usedCapacity lru) < 2 ^ 63" by (rule sint_lt64)
  have "sint (usedCapacity lru - size_s e) = sint (usedCapacity lru) - sint (size_s e)"
    using u s0 nx lt by (intro sint_diff_exact) linarith+
  then have 1: "sint (usedCapacity lru - size_s e) = sum_list (map ?g xs)"
    unfolding m using u by linarith
  have 2: "\<forall>k \<in> set xs. 0 \<le> ?g k"
  proof
    fix k assume k: "k \<in> set xs"
    then have "?g k = ?f k" using d by (auto simp: weight_def)
    then show "0 \<le> ?g k" using nn k by simp
  qed
  show ?thesis unfolding exact_inv_def using 1 2 by simp
qed

lemma exact_push:
  assumes "seg_inv lru" "exact_inv lru" "usedCapacity lru \<le>s capacity lru"
    and "0 \<le> sint sz" "sint (capacity lru) + sint sz < 2 ^ 63" "cache_s lru k = None"
  shows "exact_inv (pushed_s k d sz lru)"
proof -
  let ?m = "(cache_s lru)(k \<mapsto> \<lparr>size_s = sz, data_s = d, position_s = Some k\<rparr>)"
  let ?f = "\<lambda>k. sint (weight (cache_s lru) k)"
  let ?g = "\<lambda>k. sint (weight ?m k)"
  have kq: "k \<notin> set (q_s lru)" using assms(1,6) by (auto simp: seg_inv_def)
  have m: "sum_list (map ?g (q_s lru)) = sum_list (map ?f (q_s lru))"
    by (rule arg_cong[of _ _ sum_list], rule sint_map_cong) (use kq in auto)
  have nn: "\<forall>k \<in> set (q_s lru). 0 \<le> ?f k" using assms(2) by (simp add: exact_inv_def)
  have u: "sint (usedCapacity lru) = sum_list (map ?f (q_s lru))"
    using assms(2) by (simp add: exact_inv_def)
  have s0: "0 \<le> sint (usedCapacity lru)" unfolding u using nn by (intro sum_list_nonneg) auto
  have le: "sint (usedCapacity lru) \<le> sint (capacity lru)" using assms(3) by (simp add: word_sle_eq)
  have "sint (usedCapacity lru + sz) = sint (usedCapacity lru) + sint sz"
    using s0 le assms(4,5) by (intro sint_add_exact) linarith+
  moreover have "?g k = sint sz" by (simp add: weight_def)
  ultimately have 1: "sint (usedCapacity lru + sz) = sum_list (map ?g (k # q_s lru))"
    unfolding list.map sum_list.Cons m using u by linarith
  have 2: "\<forall>x \<in> set (k # q_s lru). 0 \<le> ?g x"
  proof
    fix x assume x: "x \<in> set (k # q_s lru)"
    show "0 \<le> ?g x"
    proof (cases "x = k")
      case True
      then show ?thesis using assms(4) by (simp add: weight_def)
    next
      case False
      then have "?g x = ?f x" by (simp add: weight_def)
      then show ?thesis using nn x False by simp
    qed
  qed
  show ?thesis unfolding exact_inv_def PushFront_def using 1 2 by simp
qed

lemma exact_move:
  assumes "exact_inv lru" "k \<in> set (q_s lru)"
  shows "exact_inv (lru\<lparr>q_s := k # remove1 k (q_s lru)\<rparr>)"
proof -
  have "sum_list (map (\<lambda>k. sint (weight (cache_s lru) k)) (k # remove1 k (q_s lru)))
      = sum_list (map (\<lambda>k. sint (weight (cache_s lru) k)) (q_s lru))"
    using assms(2) by (simp add: sum_list_map_remove1)
  moreover have "set (k # remove1 k (q_s lru)) \<subseteq> set (q_s lru)"
    using assms(2) set_remove1_subset[of k "q_s lru"] by auto
  ultimately show ?thesis using assms(1) unfolding exact_inv_def by auto
qed

lemma exact_data:
  assumes "exact_inv lru" "cache_s lru k = Some e"
  shows "exact_inv (lru\<lparr>cache_s := (cache_s lru)(k \<mapsto> e\<lparr>data_s := d\<rparr>)\<rparr>)"
proof -
  have "\<And>x. weight ((cache_s lru)(k \<mapsto> e\<lparr>data_s := d\<rparr>)) x = weight (cache_s lru) x"
    using assms(2) by (simp add: weight_def)
  then show ?thesis using assms(1) unfolding exact_inv_def by simp
qed

lemma evict_s_exact:
  assumes "seg_inv lru" "exact_inv lru" "evict_s lru w = Some (lru', w')"
  shows "exact_inv lru'"
proof -
  have "(seg_inv lru' \<and> exact_inv lru') \<and> \<not> capacity lru' <s usedCapacity lru'"
  proof (rule evict_s_rule[where P = "\<lambda>l v. seg_inv l \<and> exact_inv l", OF assms(3)])
    show "seg_inv lru \<and> exact_inv lru" using assms(1,2) by (rule conjI)
  next
    fix l v x e
    assume p: "seg_inv l \<and> exact_inv l" and b: "Back (q_s l) = Some x"
      and e: "cache_s l x = Some e"
    have q: "q_s l = butlast (q_s l) @ [x]" using b by (rule Back_Some)
    have i: "seg_inv l" and j: "exact_inv l" using p by blast+
    show "seg_inv (l\<lparr>q_s := butlast (q_s l), usedCapacity := usedCapacity l - size_s e,
                  cache_s := (cache_s l)(x := None)\<rparr>) \<and>
          exact_inv (l\<lparr>q_s := butlast (q_s l), usedCapacity := usedCapacity l - size_s e,
                  cache_s := (cache_s l)(x := None)\<rparr>)"
      using seg_inv_step[OF i q e] exact_step[OF i j q e] by (rule conjI)
  qed
  then show ?thesis by blast
qed

lemma exec_s_exact:
  assumes "seg_inv lru" "exact_inv lru" "usedCapacity lru \<le>s capacity lru"
    and "weight_ok (capacity lru) c" "exec_s c (lru, w) = Some (lru', w')"
  shows "exact_inv lru'"
proof (cases c)
  case (SGet k)
  show ?thesis
  proof (cases "cache_s lru k")
    case None
    then show ?thesis using assms(2,5) SGet by (simp add: Get_s_absent)
  next
    case (Some e)
    have "k \<in> set (q_s lru)" using assms(1) Some by (auto simp: seg_inv_def)
    then show ?thesis
      using assms(5) SGet Some exact_move[OF assms(2), of k] by (auto simp: Get_s_present[OF assms(1)])
  qed
next
  case (SAdd k d sz)
  show ?thesis
  proof (cases "cache_s lru k")
    case None
    have ok: "0 \<le> sint sz" "sint (capacity lru) + sint sz < 2 ^ 63" using assms(4) SAdd by simp_all
    have e: "evict_s (pushed_s k d sz lru) w = Some (lru', w')"
      using assms(5) SAdd None by (simp add: Add_s_absent)
    show ?thesis
      using evict_s_exact[OF seg_inv_push[OF assms(1) None] exact_push[OF assms(1,2,3) ok None] e] .
  next
    case (Some e)
    have kq: "k \<in> set (q_s lru)" using assms(1) Some by (auto simp: seg_inv_def)
    have "exact_inv (lru\<lparr>q_s := k # remove1 k (q_s lru), cache_s := (cache_s lru)(k \<mapsto> e\<lparr>data_s := d\<rparr>)\<rparr>)"
      using exact_data[OF exact_move[OF assms(2) kq], of k e d] Some by simp
    then show ?thesis using assms(5) SAdd Some by (auto simp: Add_s_present[OF assms(1)])
  qed
qed (use assms in auto)

lemma run_s_exact:
  assumes "seg_inv lru" "exact_inv lru" "usedCapacity lru \<le>s capacity lru"
    and "\<forall>c \<in> set cs. weight_ok (capacity lru) c" "run_s cs (lru, w) = Some (lru', w')"
  shows "exact_inv lru'"
  using assms
proof (induction cs arbitrary: lru w)
  case Nil
  then show ?case by simp
next
  case (Cons c cs)
  from Cons.prems(5) obtain l1 w1 where s: "exec_s c (lru, w) = Some (l1, w1)"
      and r: "run_s cs (l1, w1) = Some (lru', w')"
    by (auto split: option.splits)
  have ok: "weight_ok (capacity lru) c" using Cons.prems(4) by simp
  have e1: "exact_inv l1" using exec_s_exact[OF Cons.prems(1,2,3) ok s] .
  have i1: "seg_inv l1" "capacity l1 = capacity lru" "usedCapacity l1 \<le>s capacity l1"
    using exec_s_inv[OF Cons.prems(1) s] Cons.prems(3) by auto
  have a1: "\<forall>c \<in> set cs. weight_ok (capacity l1) c" using Cons.prems(4) i1(2) by simp
  show ?case using Cons.IH[OF i1(1) e1 i1(3) a1 r] .
qed

lemma weight_sum_list:
  assumes "seg_inv lru"
  shows "weight_sum lru = sum_list (map (\<lambda>k. sint (weight (cache_s lru) k)) (q_s lru))"
proof -
  have "distinct (q_s lru)" "dom (cache_s lru) = set (q_s lru)"
    using assms by (auto simp: seg_inv_def)
  then show ?thesis by (simp add: weight_sum_def sum_list_distinct_conv_sum_set)
qed

text \<open>
  Claim C1, as stated, fails when the addition of \<open>Add\<close> overflows \<open>int64\<close>: with
  the capacity \<open>2^63 - 1\<close>, after \<open>Add\<close> of a key with weight \<open>2^63 - 1\<close> and of a
  second key with weight 1, both entries are in the index, the sum of their weights
  is \<open>2^63\<close>, above the capacity, and the used capacity has wrapped around to
  \<open>-2^63\<close>, so no entry is evicted.
\<close>

theorem C1_used_capacity_counterexample:
  "(0::int64) \<le>s 9223372036854775807 \<and> (0::int64) \<le>s 1 \<and>
   run_s [SAdd ''a'' None 9223372036854775807, SAdd ''b'' None 1]
     (NewSegmentCache 9223372036854775807 None, ()) =
     Some (\<lparr>capacity = 9223372036854775807, usedCapacity = 9223372036854775808,
        cache_s = [''a'' \<mapsto> \<lparr>size_s = 9223372036854775807, data_s = None :: nat option, position_s = Some ''a''\<rparr>,
                   ''b'' \<mapsto> \<lparr>size_s = 1, data_s = None, position_s = Some ''b''\<rparr>],
        q_s = [''b'', ''a''], evictedCallback_s = None :: (string \<Rightarrow> unit \<Rightarrow> unit) option\<rparr>, ()) \<and>
   sint (UsedCapacity (\<lparr>capacity = 9223372036854775807, usedCapacity = 9223372036854775808,
        cache_s = [''a'' \<mapsto> \<lparr>size_s = 9223372036854775807, data_s = None :: nat option, position_s = Some ''a''\<rparr>,
                   ''b'' \<mapsto> \<lparr>size_s = 1, data_s = None, position_s = Some ''b''\<rparr>],
        q_s = [''b'', ''a''], evictedCallback_s = None :: (string \<Rightarrow> unit \<Rightarrow> unit) option\<rparr>)) = - 9223372036854775808 \<and>
   weight_sum (\<lparr>capacity = 9223372036854775807, usedCapacity = 9223372036854775808,
        cache_s = [''a'' \<mapsto> \<lparr>size_s = 9223372036854775807, data_s = None :: nat option, position_s = Some ''a''\<rparr>,
                   ''b'' \<mapsto> \<lparr>size_s = 1, data_s = None, position_s = Some ''b''\<rparr>],
        q_s = [''b'', ''a''], evictedCallback_s = None :: (string \<Rightarrow> unit \<Rightarrow> unit) option\<rparr>) = 9223372036854775808 \<and>
   sint (UsedCapacity (\<lparr>capacity = 9223372036854775807, usedCapacity = 9223372036854775808,
        cache_s = [''a'' \<mapsto> \<lparr>size_s = 9223372036854775807, data_s = None :: nat option, position_s = Some ''a''\<rparr>,
                   ''b'' \<mapsto> \<lparr>size_s = 1, data_s = None, position_s = Some ''b''\<rparr>],
        q_s = [''b'', ''a''], evictedCallback_s = None :: (string \<Rightarrow> unit \<Rightarrow> unit) option\<rparr>)) \<noteq> weight_sum (\<lparr>capacity = 9223372036854775807, usedCapacity = 9223372036854775808,
        cache_s = [''a'' \<mapsto> \<lparr>size_s = 9223372036854775807, data_s = None :: nat option, position_s = Some ''a''\<rparr>,
                   ''b'' \<mapsto> \<lparr>size_s = 1, data_s = None, position_s = Some ''b''\<rparr>],
        q_s = [''b'', ''a''], evictedCallback_s = None :: (string \<Rightarrow> unit \<Rightarrow> unit) option\<rparr>)"
  by (simp add: NewSegmentCache_def Add_s_def evict_s.simps PushFront_def word_sless_alt
      word_sle_eq UsedCapacity_def weight_sum_def weight_def)

text \<open>
  Claim C1, amended. With a capacity that is not negative, and weights that are not
  negative and do not overflow \<open>int64\<close> when added to the capacity, every sequence of
  public calls on a new weighted cache returns, and in the state it reaches the used
  capacity is the sum of the weights of the entries of the index and is at most the
  capacity. A weight may exceed the capacity: the loop then evicts from the back, the
  new entry last, and an empty index has the used capacity 0.
\<close>

theorem C1_used_capacity_amended:
  assumes "0 \<le>s c" and "\<forall>call \<in> set cs. weight_ok c call"
  shows "\<exists>sl w. run_s cs (NewSegmentCache c cb, w0) = Some (sl, w) \<and>
           sint (UsedCapacity sl) = weight_sum sl \<and>
           UsedCapacity sl \<le>s Capacity sl \<and> Capacity sl = c \<and>
           (dom (cache_s sl) = {} \<longrightarrow> UsedCapacity sl = 0)"
proof -
  let ?N = "NewSegmentCache c cb"
  have i0: "seg_inv ?N" by (rule NewSegmentCache_inv)
  have c0: "0 \<le>s capacity ?N" using assms(1) by (simp add: NewSegmentCache_def)
  have u0: "usedCapacity ?N \<le>s capacity ?N" using assms(1) by (simp add: NewSegmentCache_def)
  have e0: "exact_inv ?N" by (simp add: exact_inv_def NewSegmentCache_def)
  have a0: "\<forall>call \<in> set cs. weight_ok (capacity ?N) call"
    using assms(2) by (simp add: NewSegmentCache_def)
  obtain sl w where r: "run_s cs (?N, w0) = Some (sl, w)"
    using run_s_total[OF i0 c0, of cs w0] by blast
  have i: "seg_inv sl" and cap: "capacity sl = c" and le: "usedCapacity sl \<le>s c"
    using run_s_reachable[OF r] assms(1) by simp_all
  have e: "exact_inv sl" using run_s_exact[OF i0 e0 u0 a0 r] .
  have 1: "sint (UsedCapacity sl) = weight_sum sl"
    using e weight_sum_list[OF i] by (simp add: exact_inv_def UsedCapacity_def)
  have 2: "UsedCapacity sl \<le>s Capacity sl" "Capacity sl = c"
    using le cap by (simp_all add: UsedCapacity_def Capacity_def)
  have 3: "dom (cache_s sl) = {} \<longrightarrow> UsedCapacity sl = 0"
    using i by (auto simp: seg_inv_def UsedCapacity_def)
  show ?thesis
    apply (rule exI[of _ sl], rule exI[of _ w])
    apply (rule conjI[OF r conjI[OF 1 conjI[OF 2(1) conjI[OF 2(2) 3]]]])
    done
qed

theorem C1_used_capacity_amended_witness:
  "(0::int64) \<le>s 3 \<and>
   weight_ok 3 (SAdd ''1'' (Some (1::nat)) 1) \<and> weight_ok 3 (SAdd ''2'' (Some (2::nat)) 5) \<and>
   (\<exists>sl w. run_s [SAdd ''1'' (Some (1::nat)) 1, SAdd ''2'' (Some 2) 5] (NewSegmentCache 3 None, ()) = Some (sl, w) \<and>
           sint (UsedCapacity sl) = weight_sum sl \<and>
           UsedCapacity sl \<le>s Capacity sl \<and> Capacity sl = 3 \<and>
           (dom (cache_s sl) = {} \<longrightarrow> UsedCapacity sl = 0))"
proof -
  have h1: "(0::int64) \<le>s 3" by (simp add: word_sle_eq)
  have h2: "\<forall>call \<in> set [SAdd ''1'' (Some (1::nat)) 1, SAdd ''2'' (Some 2) 5]. weight_ok 3 call"
    by simp
  have h3: "weight_ok 3 (SAdd ''1'' (Some (1::nat)) 1) \<and> weight_ok 3 (SAdd ''2'' (Some (2::nat)) 5)"
    by simp
  from h1 h3 C1_used_capacity_amended [OF h1 h2, where cb = None and ?w0.0 = "()"]
  show ?thesis by blast
qed

subsection \<open>The mutex of the first copy\<close>

lemma Lock_held: "lock s \<Longrightarrow> Lock s = Blocked"
  by (simp add: Lock_def)

lemma Len_mu_blocked: "lock s \<Longrightarrow> Len_mu s = Blocked"
  by (simp add: Len_mu_def Lock_held)

lemma Len_mu_returns: "\<not> lock s \<Longrightarrow> Len_mu s = Returned (Len (inner s), s)"
  by (simp add: Len_mu_def Lock_def Unlock_def)

lemma Unpin_mu_blocked: "lock s \<Longrightarrow> Unpin_mu k s w = Blocked"
  by (simp add: Unpin_mu_def Lock_held)

lemma Unpin_mu_keeps_lock:
  assumes "\<not> lock s" "k \<notin> pinned_keys (inner s)"
  shows "Unpin_mu k s w = Returned (s\<lparr>lock := True\<rparr>, w)"
  using assms by (auto simp: Unpin_mu_def Lock_def pinned_keys_def split: option.splits)

lemma Unpin_mu_pinned:
  assumes "\<not> lock s" "cache (inner s) k = Some e" "pinned e"
    and "Unpin k (inner s) w = Some (l, w')"
  shows "Unpin_mu k s w = Returned (s\<lparr>inner := l\<rparr>, w')"
  using assms by (simp add: Unpin_mu_def Unpin_def evict_mu_def Lock_def Unlock_def)

text \<open>
  Claim C8 fails in the copy with the mutex. \<open>Unpin\<close> of a key that is not in a new
  cache returns, with the index and the queue as they were and the mutex held; the
  \<open>Len\<close> that follows blocks in \<open>Lock\<close> and does not return, and so does a second
  \<open>Unpin\<close>. The other methods of that copy release the mutex on every path.
\<close>

theorem C8_Unpin_keeps_lock:
  "Unpin_mu ''x'' (NewCache_mu 3 None :: (nat, unit) Cache_mu) ()
     = Returned (\<lparr>inner = NewCache 3 None, lock = True\<rparr>, ()) \<and>
   Len_mu (\<lparr>inner = NewCache 3 None, lock = True\<rparr> :: (nat, unit) Cache_mu) = Blocked \<and>
   Unpin_mu ''x'' (\<lparr>inner = NewCache 3 None, lock = True\<rparr> :: (nat, unit) Cache_mu) () = Blocked \<and>
   Len_mu (NewCache_mu 3 None :: (nat, unit) Cache_mu) = Returned (0, NewCache_mu 3 None)"
  by (simp add: Unpin_mu_def Len_mu_def Lock_def Unlock_def NewCache_mu_def NewCache_def Len_def)

end
